theory Spec2Isabelle
  imports Main "HOL-Library.Sublist" "HOL-Library.Word"
begin

section \<open>Strings\<close>

text \<open>
  A JavaScript string is a sequence of UTF-16 code units, and the string operations of
  \<open>parser.ts\<close> (\<open>trim\<close>, \<open>startsWith\<close>, \<open>includes\<close>, \<open>join\<close>, and the regular
  expressions, none of which has the \<open>u\<close> flag) work on code units. A code unit is a
  16-bit word and a string a list of them; \<open>str\<close> writes an ASCII literal.
\<close>

type_synonym code_unit = "16 word"

type_synonym jsstring = "code_unit list"

definition str :: "string \<Rightarrow> jsstring" where
  "str s = map of_char s"

abbreviation LF :: code_unit where
  "LF \<equiv> 0x0A"

abbreviation HASH :: code_unit where
  "HASH \<equiv> 0x23"

abbreviation HYPHEN :: code_unit where
  "HYPHEN \<equiv> 0x2D"

abbreviation DOT :: code_unit where
  "DOT \<equiv> 0x2E"

definition isLineTerminator :: "code_unit \<Rightarrow> bool" where
  \<comment> \<open>LineTerminator of ECMAScript, what \<open>.\<close> does not match: LF, CR, LS, PS\<close>
  "isLineTerminator c = (c = 0x0A \<or> c = 0x0D \<or> c = 0x2028 \<or> c = 0x2029)"

definition isWhiteSpace :: "code_unit \<Rightarrow> bool" where
  \<comment> \<open>WhiteSpace and LineTerminator of ECMAScript: what \<open>trim\<close> strips and \<open>\s\<close>
     matches. TAB, LF, VT, FF, CR; SP, NBSP; the other space separators U+1680,
     U+2000 to U+200A, U+202F, U+205F, U+3000; LS, PS; and the byte order mark.\<close>
  "isWhiteSpace c =
     ((0x09 \<le> c \<and> c \<le> 0x0D) \<or> c = 0x20 \<or> c = 0xA0 \<or> c = 0x1680
      \<or> (0x2000 \<le> c \<and> c \<le> 0x200A) \<or> c = 0x2028 \<or> c = 0x2029 \<or> c = 0x202F
      \<or> c = 0x205F \<or> c = 0x3000 \<or> c = 0xFEFF)"

definition isWordChar :: "code_unit \<Rightarrow> bool" where
  \<comment> \<open>\<open>\w\<close>: \<open>[A-Za-z0-9_]\<close>\<close>
  "isWordChar c =
     ((0x30 \<le> c \<and> c \<le> 0x39) \<or> (0x41 \<le> c \<and> c \<le> 0x5A) \<or> c = 0x5F
      \<or> (0x61 \<le> c \<and> c \<le> 0x7A))"

definition isLowerAlnum :: "code_unit \<Rightarrow> bool" where
  \<comment> \<open>\<open>[a-z0-9]\<close>\<close>
  "isLowerAlnum c = ((0x61 \<le> c \<and> c \<le> 0x7A) \<or> (0x30 \<le> c \<and> c \<le> 0x39))"

definition trim :: "jsstring \<Rightarrow> jsstring" where
  "trim s = rev (dropWhile isWhiteSpace (rev (dropWhile isWhiteSpace s)))"

definition startsWith :: "jsstring \<Rightarrow> jsstring \<Rightarrow> bool" where
  "startsWith s q = prefix q s"

fun includes_s :: "jsstring \<Rightarrow> jsstring \<Rightarrow> bool" where
  "includes_s [] q = (q = [])"
| "includes_s (x # xs) q = (prefix q (x # xs) \<or> includes_s xs q)"

fun join :: "jsstring \<Rightarrow> jsstring list \<Rightarrow> jsstring" where
  "join sep [] = []"
| "join sep [x] = x"
| "join sep (x # y # ys) = x @ sep @ join sep (y # ys)"

fun toString_nat :: "nat \<Rightarrow> jsstring" where
  "toString_nat n =
     (if n < 10 then [0x30 + of_nat n] else toString_nat (n div 10) @ [0x30 + of_nat (n mod 10)])"

declare toString_nat.simps [simp del]

subsection \<open>Lower case\<close>

text \<open>
  \<open>String.prototype.toLowerCase\<close> belongs to the runtime. It follows the case tables of
  Unicode: it does not work code unit by code unit (U+0130 becomes the two units U+0069
  U+0307) and it reads the context (capital sigma becomes U+03C2 at the end of a word
  and U+03C3 elsewhere). The tables are not part of the repository, so the function is
  a parameter, \<open>toLowerCase\<close>, of every definition whose code calls it; a theorem with a
  free \<open>lc\<close> in that place holds for every function, the one of the runtime among them.

  The examples need one function to run with. \<open>toLowerCase_basic\<close> is written after the
  Unicode rules for strings made of the units below U+0100 and the capitals omicron and
  sigma: the capitals A to Z and U+00C0 to U+00DE (but the multiplication sign) and
  omicron move to their small letters; sigma becomes the final sigma when a cased
  letter comes before it, with nothing but case-ignorable characters in between, and
  no cased letter comes after it in the same way; every other unit is kept. It is used
  only at the strings of the examples, and no theorem about every input rests on it.
\<close>

definition isCased :: "code_unit \<Rightarrow> bool" where
  \<comment> \<open>the cased letters among the units below U+0100, omicron and sigma\<close>
  "isCased c =
     ((0x41 \<le> c \<and> c \<le> 0x5A) \<or> (0x61 \<le> c \<and> c \<le> 0x7A) \<or> c = 0xAA \<or> c = 0xB5 \<or> c = 0xBA
      \<or> (0xC0 \<le> c \<and> c \<le> 0xD6) \<or> (0xD8 \<le> c \<and> c \<le> 0xF6) \<or> (0xF8 \<le> c \<and> c \<le> 0xFF)
      \<or> c = 0x39F \<or> c = 0x3A3)"

definition isCaseIgnorable :: "code_unit \<Rightarrow> bool" where
  \<comment> \<open>the case-ignorable characters below U+0100\<close>
  "isCaseIgnorable c =
     (c = 0x27 \<or> c = 0x2E \<or> c = 0x3A \<or> c = 0x5E \<or> c = 0x60 \<or> c = 0xA8 \<or> c = 0xAD
      \<or> c = 0xAF \<or> c = 0xB4 \<or> c = 0xB7 \<or> c = 0xB8)"

definition cased_next :: "jsstring \<Rightarrow> bool" where
  "cased_next s = (case dropWhile isCaseIgnorable s of [] \<Rightarrow> False | c # cs \<Rightarrow> isCased c)"

definition lower_unit :: "code_unit \<Rightarrow> code_unit" where
  "lower_unit c =
     (if (0x41 \<le> c \<and> c \<le> 0x5A) \<or> (0xC0 \<le> c \<and> c \<le> 0xDE \<and> c \<noteq> 0xD7) \<or> c = 0x39F
      then c + 0x20 else c)"

fun lower_from :: "jsstring \<Rightarrow> jsstring \<Rightarrow> jsstring" where
  \<comment> \<open>the units before the position, nearest first, and the units from it on\<close>
  "lower_from before [] = []"
| "lower_from before (c # cs) =
     (if c = 0x3A3 then (if cased_next before \<and> \<not> cased_next cs then 0x3C2 else 0x3C3)
      else lower_unit c) # lower_from (c # before) cs"

definition toLowerCase_basic :: "jsstring \<Rightarrow> jsstring" where
  "toLowerCase_basic s = lower_from [] s"

section \<open>Regular expressions\<close>

text \<open>
  The patterns of \<open>parser.ts\<close> use literals, the classes \<open>\s\<close>, \<open>\w\<close>, \<open>.\<close> and
  \<open>[^a-z0-9]\<close>, greedy \<open>*\<close> and \<open>+\<close> on a class, \<open>^\<close>, \<open>$\<close> (no \<open>m\<close> flag),
  alternation and capture groups. The matcher is the backtracking matcher of
  ECMAScript, in its continuation style: a pattern is run at a position with a
  continuation for the rest of the pattern, alternatives are tried left to right, a
  greedy quantifier tries the longest repetition first, and the first success is the
  match. A state is the index reached, the input from there on, and the captures.
\<close>

datatype re =
    Chr "code_unit \<Rightarrow> bool"
  | Str jsstring
  | Star "code_unit \<Rightarrow> bool"
  | Plus "code_unit \<Rightarrow> bool"
  | Bol
  | Eol
  | Cat re re
  | Alt re re
  | Grp nat re

type_synonym captures = "(nat \<times> jsstring) list"
type_synonym mstate = "nat \<times> jsstring \<times> captures"

fun first_success :: "('a \<Rightarrow> 'b option) \<Rightarrow> 'a list \<Rightarrow> 'b option" where
  "first_success k [] = None"
| "first_success k (x # xs) = (case k x of Some r \<Rightarrow> Some r | None \<Rightarrow> first_success k xs)"

fun rmatch :: "re \<Rightarrow> mstate \<Rightarrow> (mstate \<Rightarrow> 'r option) \<Rightarrow> 'r option" where
  "rmatch (Chr p) (i, s, g) k =
     (case s of [] \<Rightarrow> None | x # xs \<Rightarrow> if p x then k (Suc i, xs, g) else None)"
| "rmatch (Str l) (i, s, g) k =
     (if prefix l s then k (i + length l, drop (length l) s, g) else None)"
| "rmatch (Star p) (i, s, g) k =
     first_success (\<lambda>n. k (i + n, drop n s, g)) (rev [0..<Suc (length (takeWhile p s))])"
| "rmatch (Plus p) (i, s, g) k =
     first_success (\<lambda>n. k (i + n, drop n s, g)) (rev [1..<Suc (length (takeWhile p s))])"
| "rmatch Bol (i, s, g) k = (if i = 0 then k (i, s, g) else None)"
| "rmatch Eol (i, s, g) k = (if s = [] then k (i, s, g) else None)"
| "rmatch (Cat a b) st k = rmatch a st (\<lambda>st'. rmatch b st' k)"
| "rmatch (Alt a b) st k = (case rmatch a st k of Some r \<Rightarrow> Some r | None \<Rightarrow> rmatch b st k)"
| "rmatch (Grp n r) (i, s, g) k =
     rmatch r (i, s, g) (\<lambda>(j, t, g'). k (j, t, (n, take (j - i) s) # g'))"

definition exec_at :: "re \<Rightarrow> nat \<Rightarrow> jsstring \<Rightarrow> (nat \<times> captures) option" where
  \<comment> \<open>one attempt at index \<open>i\<close>, where \<open>s\<close> is the input from \<open>i\<close> on: the end index and
     the captures\<close>
  "exec_at r i s = rmatch r (i, s, []) (\<lambda>(j, t, g). Some (j, g))"

fun exec_from :: "re \<Rightarrow> nat \<Rightarrow> jsstring \<Rightarrow> captures option" where
  "exec_from r i [] = map_option snd (exec_at r i [])"
| "exec_from r i (x # xs) =
     (case exec_at r i (x # xs) of Some (j, g) \<Rightarrow> Some g | None \<Rightarrow> exec_from r (Suc i) xs)"

definition match_re :: "jsstring \<Rightarrow> re \<Rightarrow> captures option" where
  \<comment> \<open>\<open>s.match(r)\<close> without the \<open>g\<close> flag: the leftmost match, \<open>None\<close> for \<open>null\<close>\<close>
  "match_re s r = exec_from r 0 s"

definition match_group :: "captures option \<Rightarrow> nat \<Rightarrow> jsstring option" where
  \<comment> \<open>\<open>m?.[n]\<close>: \<open>None\<close> for \<open>undefined\<close> (no match, or a group that took no part)\<close>
  "match_group m n = (case m of None \<Rightarrow> None | Some g \<Rightarrow> map_of g n)"

fun replace_from :: "re \<Rightarrow> jsstring \<Rightarrow> nat \<Rightarrow> jsstring \<Rightarrow> jsstring" where
  "replace_from r rep i [] = (case exec_at r i [] of None \<Rightarrow> [] | Some m \<Rightarrow> rep)"
| "replace_from r rep i (x # xs) =
     (case exec_at r i (x # xs) of
        None \<Rightarrow> x # replace_from r rep (Suc i) xs
      | Some (j, g) \<Rightarrow>
          if j \<le> i then rep @ x # replace_from r rep (Suc i) xs
          else rep @ replace_from r rep j (drop (j - i) (x # xs)))"

definition replace_g :: "jsstring \<Rightarrow> re \<Rightarrow> jsstring \<Rightarrow> jsstring" where
  \<comment> \<open>\<open>s.replace(r, rep)\<close> with the \<open>g\<close> flag, for a replacement without \<open>$\<close>: every
     match, left to right; after an empty match the scan moves on by one code unit\<close>
  "replace_g s r rep = replace_from r rep 0 s"

definition non_alnum_run :: re where
  \<comment> \<open>\<open>/[^a-z0-9]+/\<close>\<close>
  "non_alnum_run = Plus (\<lambda>c. \<not> isLowerAlnum c)"

definition edge_hyphen :: re where
  \<comment> \<open>\<open>/^-|-$/\<close>\<close>
  "edge_hyphen = Alt (Cat Bol (Chr (\<lambda>c. c = HYPHEN))) (Cat (Chr (\<lambda>c. c = HYPHEN)) Eol)"

definition language_class :: re where
  \<comment> \<open>\<open>/language-(\w+)/\<close>\<close>
  "language_class = Cat (Str (str ''language-'')) (Grp 1 (Plus isWordChar))"

definition name_ext :: re where
  \<comment> \<open>\<open>.+\.\w+\<close>\<close>
  "name_ext = Cat (Plus (\<lambda>c. \<not> isLineTerminator c)) (Cat (Chr (\<lambda>c. c = DOT)) (Plus isWordChar))"

definition filename_comment :: re where
  \<comment> \<open>\<open>/^\/\/\s*(.+\.\w+)\s*\n|^#\s*(.+\.\w+)\s*\n/\<close>\<close>
  "filename_comment =
     Alt (Cat Bol (Cat (Str (str ''//'')) (Cat (Star isWhiteSpace)
            (Cat (Grp 1 name_ext) (Cat (Star isWhiteSpace) (Chr (\<lambda>c. c = LF)))))))
         (Cat Bol (Cat (Str (str ''#'')) (Cat (Star isWhiteSpace)
            (Cat (Grp 2 name_ext) (Cat (Star isWhiteSpace) (Chr (\<lambda>c. c = LF)))))))"

section \<open>The slug of a heading\<close>

definition slugify :: "(jsstring \<Rightarrow> jsstring) \<Rightarrow> jsstring \<Rightarrow> jsstring" where
  "slugify toLowerCase t =
     replace_g (replace_g (toLowerCase t) non_alnum_run (str ''-'')) edge_hyphen []"

section \<open>Sections and the parsed document\<close>

datatype SectionType = type_heading | type_code | type_table | type_content | type_list

text \<open>
  A row of a table section is a \<open>Record<string, string>\<close>: an object literal \<open>{}\<close> filled
  by \<open>obj[h] = v\<close>. Its own properties are a map. One key is not stored: \<open>__proto__\<close>
  names the accessor every object literal inherits from \<open>Object.prototype\<close>, so the
  assignment calls that setter, which ignores a value that is neither an object nor
  \<open>null\<close>, and no own property is made.
\<close>

definition obj_set ::
  "(jsstring \<rightharpoonup> jsstring) \<Rightarrow> jsstring \<Rightarrow> jsstring \<Rightarrow> (jsstring \<rightharpoonup> jsstring)" where
  "obj_set obj h v = (if h = str ''__proto__'' then obj else obj(h \<mapsto> v))"

datatype Section =
    HeadingSection (idx: nat) (raw: jsstring) (level: nat) (section_text: jsstring) (slug: jsstring)
  | CodeSection (idx: nat) (raw: jsstring) (lang: jsstring) (code: jsstring)
      (filename: "jsstring option")
  | TableSection (idx: nat) (raw: jsstring) (headers: "jsstring list")
      (rows: "(jsstring \<rightharpoonup> jsstring) list")
  | ListSection (idx: nat) (raw: jsstring) (ordered: bool) (items: "jsstring list")
  | ContentSection (idx: nat) (raw: jsstring) (section_text: jsstring)

fun sec_type :: "Section \<Rightarrow> SectionType" where
  "sec_type (HeadingSection i r l t g) = type_heading"
| "sec_type (CodeSection i r l c f) = type_code"
| "sec_type (TableSection i r h w) = type_table"
| "sec_type (ListSection i r b xs) = type_list"
| "sec_type (ContentSection i r t) = type_content"

record ParsedDoc =
  source :: jsstring
  title :: jsstring
  sections :: "Section list"
  headings :: "Section list"
  codeBlocks :: "Section list"
  tables :: "Section list"
  total :: nat
  byType :: "SectionType \<Rightarrow> Section list"
  byLang :: "jsstring \<Rightarrow> Section list"
  search :: "jsstring \<Rightarrow> Section list"

section \<open>The handlers of the rewriter\<close>

text \<open>
  \<open>parseMarkdown\<close> registers handlers on an \<open>HTMLRewriter\<close> and lets it run over the
  rendered HTML. The rewriter is not part of the repository; what it does to the
  program is the sequence of handler calls it makes. An event is one such call: the
  \<open>element\<close> handler of a selector (with what the handler reads of the element: the tag
  among those the selector admits, or the \<open>class\<close> attribute), the \<open>text\<close> handler of a
  selector with its chunk, or the end-tag callback that the \<open>element\<close> handler of a
  selector registered with \<open>onEndTag\<close>. The selectors \<open>pre > code\<close>, \<open>thead\<close> and
  \<open>tbody\<close> register no end-tag callback, and \<open>pre\<close>, \<open>table\<close>, \<open>tr\<close>, \<open>ul, ol\<close> have
  no \<open>text\<close> handler.
\<close>

datatype chunk = Chunk (chunk_text: jsstring) (lastInTextNode: bool)

datatype htag = H1 | H2 | H3 | H4 | H5 | H6

datatype ltag = UL | OL

datatype event =
    HeadingElement htag | HeadingText chunk | HeadingEndTag
  | CodeElement "jsstring option" | CodeText chunk
  | PreElement | PreEndTag
  | TableElement | TableEndTag
  | TheadElement
  | TbodyElement
  | TrElement | TrEndTag
  | CellText chunk
  | ListElement ltag | ListEndTag
  | LiElement | LiText chunk | LiEndTag
  | PElement | PText chunk | PEndTag

fun heading_level :: "htag \<Rightarrow> nat" where
  \<comment> \<open>\<open>parseInt(el.tagName[1] ?? '1')\<close> on the tag names \<open>h1\<close> to \<open>h6\<close>\<close>
  "heading_level H1 = 1"
| "heading_level H2 = 2"
| "heading_level H3 = 3"
| "heading_level H4 = 4"
| "heading_level H5 = 5"
| "heading_level H6 = 6"

text \<open>
  The variables of \<open>parseMarkdown\<close> that the handlers share. \<open>currentHeading\<close> is
  \<open>{level, text}\<close>, \<open>currentCode\<close> is \<open>{lang, code}\<close>, \<open>currentTable\<close> is
  \<open>{headers, rows}\<close> and \<open>currentList\<close> is \<open>{ordered, items}\<close>, each \<open>None\<close> for
  \<open>null\<close>. The list \<open>st_sections\<close> is the array \<open>sections\<close> and \<open>st_idx\<close> the counter
  \<open>idx\<close>; a JavaScript number counts exactly far beyond the length an array can have.
\<close>

record state =
  st_sections :: "Section list"
  st_idx :: nat
  currentHeading :: "(nat \<times> jsstring) option"
  currentCode :: "(jsstring \<times> jsstring) option"
  currentTable :: "(jsstring list \<times> jsstring list list) option"
  currentList :: "(bool \<times> jsstring list) option"
  currentRow :: "jsstring list"
  currentListItem :: jsstring
  inThead :: bool
  cellIndex :: nat

definition init :: state where
  "init = \<lparr> st_sections = [], st_idx = 0, currentHeading = None, currentCode = None,
            currentTable = None, currentList = None, currentRow = [], currentListItem = [],
            inThead = False, cellIndex = 0 \<rparr>"

definition push :: "(nat \<Rightarrow> Section) \<Rightarrow> state \<Rightarrow> state" where
  \<comment> \<open>\<open>sections.push({ idx: idx++, ... })\<close>\<close>
  "push mk s = s\<lparr> st_sections := st_sections s @ [mk (st_idx s)], st_idx := st_idx s + 1 \<rparr>"

subsection \<open>Headings\<close>

definition heading_element :: "htag \<Rightarrow> state \<Rightarrow> state" where
  "heading_element tg s = s\<lparr> currentHeading := Some (heading_level tg, []) \<rparr>"

definition heading_text :: "chunk \<Rightarrow> state \<Rightarrow> state" where
  "heading_text ch s =
     (case currentHeading s of
        None \<Rightarrow> s
      | Some (lv, t) \<Rightarrow> s\<lparr> currentHeading := Some (lv, t @ chunk_text ch) \<rparr>)"

definition heading_endtag :: "(jsstring \<Rightarrow> jsstring) \<Rightarrow> state \<Rightarrow> state" where
  "heading_endtag toLowerCase s =
     (case currentHeading s of
        None \<Rightarrow> s
      | Some (lv, t) \<Rightarrow>
          (let txt = trim t in
           (push (\<lambda>i. HeadingSection i (replicate lv HASH @ str '' '' @ txt) lv txt
                         (slugify toLowerCase txt)) s)
             \<lparr> currentHeading := None \<rparr>))"

subsection \<open>Code blocks\<close>

definition code_element :: "jsstring option \<Rightarrow> state \<Rightarrow> state" where
  "code_element cls s =
     (let className = (case cls of None \<Rightarrow> [] | Some c \<Rightarrow> c);
          m = match_re className language_class
      in s\<lparr> currentCode := Some (case match_group m 1 of None \<Rightarrow> str ''text'' | Some l \<Rightarrow> l, []) \<rparr>)"

definition code_text :: "chunk \<Rightarrow> state \<Rightarrow> state" where
  "code_text ch s =
     (case currentCode s of
        None \<Rightarrow> s
      | Some (l, c) \<Rightarrow> s\<lparr> currentCode := Some (l, c @ chunk_text ch) \<rparr>)"

definition detect_filename :: "jsstring \<Rightarrow> jsstring option" where
  \<comment> \<open>\<open>filenameMatch?.[1] ?? filenameMatch?.[2]\<close>\<close>
  "detect_filename c =
     (let filenameMatch = match_re c filename_comment
      in case match_group filenameMatch 1 of Some f \<Rightarrow> Some f | None \<Rightarrow> match_group filenameMatch 2)"

definition pre_endtag :: "state \<Rightarrow> state" where
  "pre_endtag s =
     (case currentCode s of
        None \<Rightarrow> s
      | Some (l, c0) \<Rightarrow>
          (let c = trim c0 in
           (push (\<lambda>i. CodeSection i (str ''```'' @ l @ [LF] @ c @ [LF] @ str ''```'') l c
                         (detect_filename c)) s)
             \<lparr> currentCode := None \<rparr>))"

subsection \<open>Tables\<close>

definition formatTableMd :: "jsstring list \<Rightarrow> jsstring list list \<Rightarrow> jsstring" where
  "formatTableMd hs rs =
     (let header = str ''| '' @ join (str '' | '') hs @ str '' |'';
          separator = str ''| '' @ join (str '' | '') (map (\<lambda>h. str ''---'') hs) @ str '' |'';
          body = join [LF] (map (\<lambda>row. str ''| '' @ join (str '' | '') row @ str '' |'') rs)
      in join [LF] [header, separator, body])"

definition row_object :: "jsstring list \<Rightarrow> jsstring list \<Rightarrow> (jsstring \<rightharpoonup> jsstring)" where
  \<comment> \<open>\<open>headers.forEach((h, i) => { obj[h] = row[i]?.trim() ?? '' })\<close> from \<open>{}\<close>\<close>
  "row_object hs row =
     fold (\<lambda>(h, i) obj. obj_set obj h (if i < length row then trim (row ! i) else []))
          (zip hs [0..<length hs]) Map.empty"

definition table_element :: "state \<Rightarrow> state" where
  "table_element s = s\<lparr> currentTable := Some ([], []), inThead := False \<rparr>"

definition table_endtag :: "state \<Rightarrow> state" where
  "table_endtag s =
     (case currentTable s of
        None \<Rightarrow> s
      | Some (hs, rs) \<Rightarrow>
          (push (\<lambda>i. TableSection i (formatTableMd hs rs) hs (map (row_object hs) rs)) s)
            \<lparr> currentTable := None \<rparr>)"

definition thead_element :: "state \<Rightarrow> state" where
  "thead_element s = s\<lparr> inThead := True \<rparr>"

definition tbody_element :: "state \<Rightarrow> state" where
  "tbody_element s = s\<lparr> inThead := False \<rparr>"

definition tr_element :: "state \<Rightarrow> state" where
  "tr_element s = s\<lparr> currentRow := [], cellIndex := 0 \<rparr>"

definition tr_endtag :: "state \<Rightarrow> state" where
  "tr_endtag s =
     (case currentTable s of
        None \<Rightarrow> s
      | Some (hs, rs) \<Rightarrow>
          if inThead s \<or> length hs = 0
          then s\<lparr> currentTable := Some (currentRow s, rs) \<rparr>
          else s\<lparr> currentTable := Some (hs, rs @ [currentRow s]) \<rparr>)"

text \<open>
  \<open>currentRow[cellIndex]\<close> is written at an index that is at most the length of the
  array (lemma \<open>cellIndex_le_length\<close> below), so the write either changes an element or
  extends the array by one. Beyond the length JavaScript would leave holes; the model
  fills them with empty strings, in a branch no run reaches.
\<close>

definition cell_text :: "chunk \<Rightarrow> state \<Rightarrow> state" where
  "cell_text ch s =
     (let i = cellIndex s;
          row = currentRow s;
          row1 = (if i < length row then row else row @ replicate (i - length row) [] @ [[]]);
          row2 = row1[i := row1 ! i @ chunk_text ch]
      in s\<lparr> currentRow := row2, cellIndex := (if lastInTextNode ch then i + 1 else i) \<rparr>)"

subsection \<open>Lists\<close>

definition list_raw :: "bool \<Rightarrow> jsstring list \<Rightarrow> jsstring" where
  "list_raw ord its =
     join [LF]
       (map (\<lambda>(item, i). if ord then toString_nat (i + 1) @ str ''. '' @ item else str ''- '' @ item)
            (zip its [0..<length its]))"

definition list_element :: "ltag \<Rightarrow> state \<Rightarrow> state" where
  "list_element tg s = s\<lparr> currentList := Some (tg = OL, []) \<rparr>"

definition list_endtag :: "state \<Rightarrow> state" where
  "list_endtag s =
     (case currentList s of
        None \<Rightarrow> s
      | Some (ord, its) \<Rightarrow>
          if length its > 0
          then (push (\<lambda>i. ListSection i (list_raw ord its) ord its) s)\<lparr> currentList := None \<rparr>
          else s)"

definition li_element :: "state \<Rightarrow> state" where
  "li_element s = s\<lparr> currentListItem := [] \<rparr>"

definition li_text :: "chunk \<Rightarrow> state \<Rightarrow> state" where
  "li_text ch s = s\<lparr> currentListItem := currentListItem s @ chunk_text ch \<rparr>"

definition li_endtag :: "state \<Rightarrow> state" where
  "li_endtag s =
     (case currentList s of
        None \<Rightarrow> s
      | Some (ord, its) \<Rightarrow> s\<lparr> currentList := Some (ord, its @ [trim (currentListItem s)]) \<rparr>)"

subsection \<open>Paragraphs\<close>

text \<open>
  The \<open>element\<close> handler of \<open>p\<close> declares \<open>let text = ''\<close> and registers an end-tag
  callback that reads it. Nothing assigns to that variable: the \<open>text\<close> handler of the
  selector has an empty body (its comment says "Handled in element"). So the callback
  reads the empty string, whatever chunks arrived.
\<close>

definition p_element :: "state \<Rightarrow> state" where
  "p_element s = s"

definition p_text :: "chunk \<Rightarrow> state \<Rightarrow> state" where
  "p_text ch s = s"

definition p_endtag :: "state \<Rightarrow> state" where
  "p_endtag s =
     (let txt = [] in
      if trim txt \<noteq> [] then push (\<lambda>i. ContentSection i (trim txt) (trim txt)) s else s)"

subsection \<open>The run over a document\<close>

fun step :: "(jsstring \<Rightarrow> jsstring) \<Rightarrow> event \<Rightarrow> state \<Rightarrow> state" where
  "step toLowerCase (HeadingElement tg) s = heading_element tg s"
| "step toLowerCase (HeadingText ch) s = heading_text ch s"
| "step toLowerCase HeadingEndTag s = heading_endtag toLowerCase s"
| "step toLowerCase (CodeElement cls) s = code_element cls s"
| "step toLowerCase (CodeText ch) s = code_text ch s"
| "step toLowerCase PreElement s = s"
| "step toLowerCase PreEndTag s = pre_endtag s"
| "step toLowerCase TableElement s = table_element s"
| "step toLowerCase TableEndTag s = table_endtag s"
| "step toLowerCase TheadElement s = thead_element s"
| "step toLowerCase TbodyElement s = tbody_element s"
| "step toLowerCase TrElement s = tr_element s"
| "step toLowerCase TrEndTag s = tr_endtag s"
| "step toLowerCase (CellText ch) s = cell_text ch s"
| "step toLowerCase (ListElement tg) s = list_element tg s"
| "step toLowerCase ListEndTag s = list_endtag s"
| "step toLowerCase LiElement s = li_element s"
| "step toLowerCase (LiText ch) s = li_text ch s"
| "step toLowerCase LiEndTag s = li_endtag s"
| "step toLowerCase PElement s = p_element s"
| "step toLowerCase (PText ch) s = p_text ch s"
| "step toLowerCase PEndTag s = p_endtag s"

definition run :: "(jsstring \<Rightarrow> jsstring) \<Rightarrow> event list \<Rightarrow> state \<Rightarrow> state" where
  "run toLowerCase evs s = fold (step toLowerCase) evs s"

section \<open>parseMarkdown, fetchDocs, parseFile\<close>

text \<open>
  \<open>Bun.markdown.html\<close> and the rewriter are taken as a parameter \<open>rw\<close>: the handler
  calls that the rendered content leads to. The second argument of \<open>parseMarkdown\<close> is
  optional and defaults to \<open>'unknown'\<close>.
\<close>

definition is_level1 :: "Section \<Rightarrow> bool" where
  "is_level1 h = (level h = 1)"

definition assemble :: "(jsstring \<Rightarrow> jsstring) \<Rightarrow> Section list \<Rightarrow> jsstring \<Rightarrow> ParsedDoc" where
  "assemble toLowerCase secs src =
     (let hds = filter (\<lambda>s. sec_type s = type_heading) secs;
          cbs = filter (\<lambda>s. sec_type s = type_code) secs;
          tbs = filter (\<lambda>s. sec_type s = type_table) secs;
          ttl = (case find is_level1 hds of None \<Rightarrow> src | Some h \<Rightarrow> section_text h)
      in \<lparr> source = src, title = ttl, sections = secs, headings = hds, codeBlocks = cbs,
           tables = tbs, total = length secs,
           byType = (\<lambda>ty. filter (\<lambda>s. sec_type s = ty) secs),
           byLang = (\<lambda>l. filter (\<lambda>c. lang c = l \<or> startsWith (lang c) l) cbs),
           search = (\<lambda>query. let q = toLowerCase query
                              in filter (\<lambda>s. includes_s (toLowerCase (raw s)) q) secs) \<rparr>)"

definition parseMarkdown ::
  "(jsstring \<Rightarrow> jsstring) \<Rightarrow> (jsstring \<Rightarrow> event list) \<Rightarrow> jsstring \<Rightarrow> jsstring option
     \<Rightarrow> ParsedDoc" where
  "parseMarkdown toLowerCase rw content src =
     assemble toLowerCase (st_sections (run toLowerCase (rw content) init))
              (case src of None \<Rightarrow> str ''unknown'' | Some x \<Rightarrow> x)"

datatype error = Error jsstring

record response =
  ok :: bool
  status :: nat
  body :: jsstring

definition fetchDocs ::
  "(jsstring \<Rightarrow> jsstring) \<Rightarrow> (jsstring \<Rightarrow> error + response) \<Rightarrow> (jsstring \<Rightarrow> event list)
     \<Rightarrow> jsstring \<Rightarrow> error + ParsedDoc" where
  "fetchDocs toLowerCase fetch rw url =
     (case fetch url of
        Inl e \<Rightarrow> Inl e
      | Inr res \<Rightarrow>
          if \<not> ok res
          then Inl (Error (str ''Failed to fetch '' @ url @ str '': '' @ toString_nat (status res)))
          else Inr (parseMarkdown toLowerCase rw (body res) (Some url)))"

definition parseFile ::
  "(jsstring \<Rightarrow> jsstring) \<Rightarrow> (jsstring \<rightharpoonup> jsstring) \<Rightarrow> (jsstring \<Rightarrow> event list)
     \<Rightarrow> jsstring \<Rightarrow> error + ParsedDoc" where
  "parseFile toLowerCase files rw path =
     (case files path of
        None \<Rightarrow> Inl (Error (str ''File not found: '' @ path))
      | Some content \<Rightarrow> Inr (parseMarkdown toLowerCase rw content (Some path)))"

section \<open>Invariants, the wording of the specification, and example runs\<close>

definition idx_inv :: "state \<Rightarrow> bool" where
  \<comment> \<open>the sections pushed so far carry the indices 0, 1, ... up to the counter\<close>
  "idx_inv s = (map idx (st_sections s) = [0..<st_idx s])"

definition no_content :: "state \<Rightarrow> bool" where
  "no_content s = list_all (\<lambda>x. sec_type x \<noteq> type_content) (st_sections s)"

definition doc_langs :: "event list" where
  \<comment> \<open>three fenced blocks: tsx, css, ts\<close>
  "doc_langs =
     [PreElement, CodeElement (Some (str ''language-tsx'')), CodeText (Chunk (str ''a'') True),
      PreEndTag,
      PreElement, CodeElement (Some (str ''language-css'')), CodeText (Chunk (str ''b'') True),
      PreEndTag,
      PreElement, CodeElement (Some (str ''language-ts'')), CodeText (Chunk (str ''c'') True),
      PreEndTag]"

definition doc_component :: "event list" where
  \<comment> \<open>a heading "Component" and a css block\<close>
  "doc_component =
     [HeadingElement H1, HeadingText (Chunk (str ''Component'') True), HeadingEndTag,
      PreElement, CodeElement (Some (str ''language-css'')),
      CodeText (Chunk (str ''.btn {}'') True), PreEndTag]"

definition doc_sigma :: "event list" where
  \<comment> \<open>a heading of the two capitals omicron, sigma\<close>
  "doc_sigma = [HeadingElement H1, HeadingText (Chunk [0x39F, 0x3A3] True), HeadingEndTag]"

text \<open>
  For the rows of a table: the number of \<open>tr\<close> end tags since the last \<open>table\<close> start
  tag, and the end-tag callback of \<open>tr\<close> as the specification words it, with "this is
  the first row seen for the table" as an argument.
\<close>

fun seen_step :: "event \<Rightarrow> nat \<Rightarrow> nat" where
  "seen_step TableElement n = 0"
| "seen_step TrEndTag n = Suc n"
| "seen_step e n = n"

definition rows_seen :: "event list \<Rightarrow> nat" where
  "rows_seen evs = fold seen_step evs 0"

definition tr_endtag_claimed :: "bool \<Rightarrow> state \<Rightarrow> state" where
  "tr_endtag_claimed first_row s =
     (case currentTable s of
        None \<Rightarrow> s
      | Some (hs, rs) \<Rightarrow>
          if first_row \<or> inThead s
          then s\<lparr> currentTable := Some (currentRow s, rs) \<rparr>
          else s\<lparr> currentTable := Some (hs, rs @ [currentRow s]) \<rparr>)"

definition cell_at :: "jsstring list \<Rightarrow> nat \<Rightarrow> jsstring" where
  "cell_at row i = (if i < length row then trim (row ! i) else [])"

definition fill ::
  "jsstring list \<Rightarrow> nat \<Rightarrow> jsstring list \<Rightarrow> (jsstring \<rightharpoonup> jsstring)
     \<Rightarrow> (jsstring \<rightharpoonup> jsstring)" where
  \<comment> \<open>the loop of \<open>row_object\<close> from header position \<open>k\<close> on, over the object built so far\<close>
  "fill row k hs m =
     fold (\<lambda>(h, i) obj. obj_set obj h (cell_at row i)) (zip hs [k..<k + length hs]) m"

definition table_blank_head :: "event list" where
  \<comment> \<open>a header row whose cells have no text, then a body row with the cells a and b, up to
     the end tag of that row\<close>
  "table_blank_head =
     [TableElement, TheadElement, TrElement, TrEndTag, TbodyElement,
      TrElement, CellText (Chunk (str ''a'') True), CellText (Chunk (str ''b'') True)]"

definition table_with_head :: "event list" where
  "table_with_head =
     [TableElement, TheadElement, TrElement, CellText (Chunk (str ''Prop'') True), TrEndTag,
      TbodyElement, TrElement, CellText (Chunk (str ''size'') True)]"

definition table_first_row :: "event list" where
  "table_first_row = [TableElement, TrElement, CellText (Chunk (str ''H'') True)]"

definition table_short_row :: "event list" where
  "table_short_row =
     [TableElement, TheadElement, TrElement, CellText (Chunk (str ''Prop'') True),
      CellText (Chunk (str ''Type'') True), CellText (Chunk (str ''Default'') True), TrEndTag,
      TbodyElement, TrElement, CellText (Chunk (str '' size'') True),
      CellText (Chunk (str ''string '') True), TrEndTag]"

definition table_head_open :: "event list" where
  "table_head_open =
     [TableElement, TheadElement, TrElement, CellText (Chunk (str ''Header1'') True),
      CellText (Chunk (str ''Header2'') True), TrEndTag, TbodyElement]"

definition table_dup :: "event list" where
  \<comment> \<open>two columns with the header A, one row with the cells 1 and 2\<close>
  "table_dup =
     [TableElement, TheadElement, TrElement, CellText (Chunk (str ''A'') True),
      CellText (Chunk (str ''A'') True), TrEndTag, TbodyElement, TrElement,
      CellText (Chunk (str '' 1 '') True), CellText (Chunk (str ''2'') True), TrEndTag,
      TableEndTag]"

definition table_proto :: "event list" where
  \<comment> \<open>two columns with the header \<open>__proto__\<close>, one row with the cells 1 and 2\<close>
  "table_proto =
     [TableElement, TheadElement, TrElement, CellText (Chunk (str ''__proto__'') True),
      CellText (Chunk (str ''__proto__'') True), TrEndTag, TbodyElement, TrElement,
      CellText (Chunk (str ''1'') True), CellText (Chunk (str ''2'') True), TrEndTag,
      TableEndTag]"

text \<open>
  The slug as the specification words it: lower case, then every maximal run of
  characters outside \<open>[a-z0-9]\<close> becomes one hyphen, then a leading and a trailing
  hyphen are stripped. \<open>runs P\<close> splits a list into its maximal runs of elements on
  which \<open>P\<close> has the same value. \<open>slug_dropping_first\<close> is the reading in which the
  characters outside ASCII are removed before the runs are replaced.
\<close>

fun runs :: "('a \<Rightarrow> bool) \<Rightarrow> 'a list \<Rightarrow> 'a list list" where
  "runs P [] = []"
| "runs P (x # xs) =
     (case runs P xs of
        [] \<Rightarrow> [[x]]
      | r # rs \<Rightarrow> if P x = P (hd r) then (x # r) # rs else [x] # r # rs)"

definition hyphenate_runs :: "jsstring \<Rightarrow> jsstring" where
  "hyphenate_runs s =
     concat (map (\<lambda>r. if isLowerAlnum (hd r) then r else [HYPHEN]) (runs isLowerAlnum s))"

definition strip_leading :: "code_unit \<Rightarrow> jsstring \<Rightarrow> jsstring" where
  "strip_leading c s = (if s \<noteq> [] \<and> hd s = c then tl s else s)"

definition strip_trailing :: "code_unit \<Rightarrow> jsstring \<Rightarrow> jsstring" where
  "strip_trailing c s = (if s \<noteq> [] \<and> last s = c then butlast s else s)"

definition isASCII :: "code_unit \<Rightarrow> bool" where
  "isASCII c = (c < 0x80)"

definition slug_dropping_first :: "(jsstring \<Rightarrow> jsstring) \<Rightarrow> jsstring \<Rightarrow> jsstring" where
  "slug_dropping_first toLowerCase t =
     strip_trailing HYPHEN (strip_leading HYPHEN
       (hyphenate_runs (filter isASCII (toLowerCase t))))"

definition titulo :: jsstring where
  \<comment> \<open>"Meu Titulo Especial" with U+00ED for the first i of the second word\<close>
  "titulo = str ''Meu T'' @ [0xED] @ str ''tulo Especial''"

text \<open>
  One alternative of the file name pattern: the comment marker \<open>m\<close> and the number \<open>n\<close>
  of its capture group. Two runs over a code block: the text of a block that holds
  the comment line alone, and the text of a block whose first line is an empty comment
  and whose second line is \<open>foo.ts\<close>.
\<close>

definition comment_alt :: "jsstring \<Rightarrow> nat \<Rightarrow> re" where
  "comment_alt m n =
     Cat Bol (Cat (Str m) (Cat (Star isWhiteSpace)
       (Cat (Grp n name_ext) (Cat (Star isWhiteSpace) (Chr (\<lambda>c. c = LF))))))"

definition code_only_comment :: "event list" where
  "code_only_comment =
     [PreElement, CodeElement (Some (str ''language-ts'')),
      CodeText (Chunk (str ''// app.ts'' @ [LF]) True), PreEndTag]"

definition code_name_on_second_line :: "event list" where
  "code_name_on_second_line =
     [PreElement, CodeElement (Some (str ''language-ts'')),
      CodeText (Chunk (str ''//'' @ [LF] @ str ''foo.ts'' @ [LF] @ str ''x'' @ [LF]) True),
      PreEndTag]"

section \<open>Invariants of the run\<close>

lemmas handler_defs =
  heading_element_def heading_text_def heading_endtag_def code_element_def code_text_def
  pre_endtag_def table_element_def table_endtag_def thead_element_def tbody_element_def
  tr_element_def tr_endtag_def cell_text_def list_element_def list_endtag_def li_element_def
  li_text_def li_endtag_def p_element_def p_text_def p_endtag_def

lemma sections_parseMarkdown:
  "sections (parseMarkdown lc rw content src) = st_sections (run lc (rw content) init)"
  by (simp add: parseMarkdown_def assemble_def Let_def)

lemma step_idx_inv: "idx_inv s \<Longrightarrow> idx_inv (step lc e s)"
  by (cases e)
     (auto simp: idx_inv_def handler_defs push_def Let_def split: option.splits prod.splits)

lemma run_idx_inv: "idx_inv s \<Longrightarrow> idx_inv (run lc evs s)"
  unfolding run_def by (induction evs arbitrary: s) (auto simp: step_idx_inv)

lemma init_idx_inv: "idx_inv init"
  by (simp add: idx_inv_def init_def)

lemma step_no_content: "no_content s \<Longrightarrow> no_content (step lc e s)"
  by (cases e)
     (auto simp: no_content_def handler_defs push_def Let_def trim_def
           split: option.splits prod.splits)

lemma run_no_content: "no_content s \<Longrightarrow> no_content (run lc evs s)"
  unfolding run_def by (induction evs arbitrary: s) (auto simp: step_no_content)

lemma init_no_content: "no_content init"
  by (simp add: no_content_def init_def)

lemma step_cellIndex_le:
  "cellIndex s \<le> length (currentRow s) \<Longrightarrow> cellIndex (step lc e s) \<le> length (currentRow (step lc e s))"
  by (cases e)
     (auto simp: handler_defs push_def Let_def split: option.splits prod.splits)

lemma cellIndex_le_length: "cellIndex (run lc evs init) \<le> length (currentRow (run lc evs init))"
proof -
  have "cellIndex s \<le> length (currentRow s) \<Longrightarrow>
        cellIndex (run lc evs s) \<le> length (currentRow (run lc evs s))" for s
    unfolding run_def by (induction evs arbitrary: s) (auto simp: step_cellIndex_le)
  then show ?thesis by (simp add: init_def)
qed

section \<open>Paragraphs\<close>

text \<open>
  Claim C1. The claim: the text chunks between the open tag and the close tag of a \<open>p\<close>
  element are gathered in one accumulator, and at the close tag a paragraph section
  with the trimmed text is emitted when that text is not empty. The code does not do
  this. The accumulator is a variable local to the \<open>element\<close> handler and the \<open>text\<close>
  handler never writes to it, so no run emits a section of type \<open>content\<close>, and the
  run over a paragraph with the text "Hello" emits nothing at all.
\<close>

theorem paragraph_text_lost:
  "byType (parseMarkdown lc rw content src) type_content = []
   \<and> sections (parseMarkdown lc (\<lambda>c. [PElement, PText (Chunk (str ''Hello'') True), PEndTag])
                 (str ''Hello'') None) = []"
proof
  have "no_content (run lc (rw content) init)"
    by (rule run_no_content [OF init_no_content])
  then show "byType (parseMarkdown lc rw content src) type_content = []"
    by (simp add: parseMarkdown_def assemble_def Let_def no_content_def filter_empty_conv
                  list_all_iff)
  show "sections (parseMarkdown lc (\<lambda>c. [PElement, PText (Chunk (str ''Hello'') True), PEndTag])
                   (str ''Hello'') None) = []"
    by (simp add: sections_parseMarkdown run_def init_def p_element_def p_text_def
                  p_endtag_def trim_def)
qed

section \<open>The index counter\<close>

text \<open>
  Claim C2. For every sequence of handler calls, \<open>total\<close> is the length of \<open>sections\<close>,
  and the \<open>idx\<close> fields of the sections are 0, 1, 2, ... in list order: every section
  of any kind takes the next value of the one counter, which starts at 0. In
  particular the indices are strictly increasing.
\<close>

theorem total_and_idx:
  "total (parseMarkdown lc rw content src) = length (sections (parseMarkdown lc rw content src))
   \<and> map idx (sections (parseMarkdown lc rw content src))
       = [0..<length (sections (parseMarkdown lc rw content src))]
   \<and> sorted_wrt (<) (map idx (sections (parseMarkdown lc rw content src)))"
proof -
  have inv: "idx_inv (run lc (rw content) init)"
    by (rule run_idx_inv [OF init_idx_inv])
  have t: "total (parseMarkdown lc rw content src) = length (sections (parseMarkdown lc rw content src))"
    by (simp add: parseMarkdown_def assemble_def Let_def)
  have m: "map idx (sections (parseMarkdown lc rw content src)) = [0..<st_idx (run lc (rw content) init)]"
    using inv by (simp add: sections_parseMarkdown idx_inv_def)
  then have "length (sections (parseMarkdown lc rw content src)) = st_idx (run lc (rw content) init)"
    by (metis length_map length_upt diff_zero)
  with m have m': "map idx (sections (parseMarkdown lc rw content src))
       = [0..<length (sections (parseMarkdown lc rw content src))]"
    by simp
  have "sorted_wrt (<) [0..<length (sections (parseMarkdown lc rw content src))]"
    by simp
  with t m' show ?thesis by simp
qed

section \<open>The queries\<close>

lemma includes_s_iff: "includes_s s q \<longleftrightarrow> (\<exists>pre post. s = pre @ q @ post)"
proof (induction s)
  case Nil
  then show ?case by auto
next
  case (Cons x xs)
  show ?case
  proof
    assume "includes_s (x # xs) q"
    then consider "prefix q (x # xs)" | "includes_s xs q" by auto
    then show "\<exists>pre post. x # xs = pre @ q @ post"
    proof cases
      case 1
      then obtain post where "x # xs = q @ post" by (auto simp: prefix_def)
      then have "x # xs = [] @ q @ post" by simp
      then show ?thesis by blast
    next
      case 2
      with Cons.IH obtain pre post where "xs = pre @ q @ post" by blast
      then have "x # xs = (x # pre) @ q @ post" by simp
      then show ?thesis by blast
    qed
  next
    assume "\<exists>pre post. x # xs = pre @ q @ post"
    then obtain pre post where e: "x # xs = pre @ q @ post" by blast
    show "includes_s (x # xs) q"
    proof (cases pre)
      case Nil
      with e have "prefix q (x # xs)" by (simp add: prefix_def)
      then show ?thesis by simp
    next
      case (Cons y ys)
      with e have "xs = ys @ q @ post" by simp
      with Cons.IH have "includes_s xs q" by blast
      then show ?thesis by simp
    qed
  qed
qed

lemma includes_map_iff:
  "includes_s (map f r) (map f q)
     \<longleftrightarrow> (\<exists>pre mid post. r = pre @ mid @ post \<and> map f mid = map f q)"
  unfolding includes_s_iff
proof
  assume "\<exists>pre post. map f r = pre @ map f q @ post"
  then obtain pre post where "map f r = pre @ map f q @ post"
    by blast
  then obtain a vs where 1: "r = a @ vs" "map f vs = map f q @ post"
    by (metis map_eq_append_conv)
  then obtain b c where 2: "vs = b @ c" "map f b = map f q"
    by (metis map_eq_append_conv)
  from 1 2 have "r = a @ b @ c" "map f b = map f q"
    by simp_all
  then show "\<exists>pre mid post. r = pre @ mid @ post \<and> map f mid = map f q"
    by blast
next
  assume "\<exists>pre mid post. r = pre @ mid @ post \<and> map f mid = map f q"
  then obtain a b c where "r = a @ b @ c" "map f b = map f q"
    by blast
  then have "map f r = map f a @ map f q @ map f c"
    by simp
  then show "\<exists>pre post. map f r = pre @ map f q @ post"
    by blast
qed

lemma search_parseMarkdown:
  "search (parseMarkdown lc rw content src) query
     = filter (\<lambda>s. includes_s (lc (raw s)) (lc query)) (sections (parseMarkdown lc rw content src))"
  by (simp add: parseMarkdown_def assemble_def Let_def)

text \<open>
  Claim C7. For every parsed document and every query \<open>q\<close>, \<open>byLang q\<close> is exactly the
  code sections whose language is \<open>q\<close> or starts with \<open>q\<close>, in the order of \<open>sections\<close>.
  On a document with a \<open>tsx\<close>, a \<open>css\<close> and a \<open>ts\<close> block, \<open>byLang "ts"\<close> returns the
  \<open>tsx\<close> and the \<open>ts\<close> block, and \<open>byLang "css"\<close> the \<open>css\<close> block alone.
\<close>

theorem byLang_prefix:
  "byLang (parseMarkdown lc rw content src) q
     = filter (\<lambda>s. sec_type s = type_code \<and> (lang s = q \<or> prefix q (lang s)))
              (sections (parseMarkdown lc rw content src))
   \<and> map lang (byLang (parseMarkdown lc (\<lambda>c. doc_langs) [] None) (str ''ts'')) = [str ''tsx'', str ''ts'']
   \<and> map lang (byLang (parseMarkdown lc (\<lambda>c. doc_langs) [] None) (str ''css'')) = [str ''css'']"
proof (intro conjI)
  show "byLang (parseMarkdown lc rw content src) q
     = filter (\<lambda>s. sec_type s = type_code \<and> (lang s = q \<or> prefix q (lang s)))
              (sections (parseMarkdown lc rw content src))"
    by (simp add: parseMarkdown_def assemble_def Let_def startsWith_def conj_commute)
  show "map lang (byLang (parseMarkdown lc (\<lambda>c. doc_langs) [] None) (str ''ts'')) = [str ''tsx'', str ''ts'']"
    by code_simp
  show "map lang (byLang (parseMarkdown lc (\<lambda>c. doc_langs) [] None) (str ''css'')) = [str ''css'']"
    by code_simp
qed

text \<open>
  Claim C8, as the code has it. For every parsed document and every query,
  \<open>search query\<close> is exactly the sections whose lower-cased \<open>raw\<close> text contains the
  lower-cased query as a substring, in the order of \<open>sections\<close>; when no section does,
  the result is the empty list. Whenever lower-casing changes the \<open>raw\<close> texts and the
  query code unit by code unit, by some map \<open>f\<close> of the code units, these are the
  sections whose \<open>raw\<close> text has a substring equal to the query up to \<open>f\<close>: the match
  that ignores case.
\<close>

theorem search_lowercase_substring:
  "search (parseMarkdown lc rw content src) query
     = filter (\<lambda>s. \<exists>pre post. lc (raw s) = pre @ lc query @ post)
              (sections (parseMarkdown lc rw content src))
   \<and> ((\<forall>s \<in> set (sections (parseMarkdown lc rw content src)).
          \<not> (\<exists>pre post. lc (raw s) = pre @ lc query @ post))
        \<longrightarrow> search (parseMarkdown lc rw content src) query = [])
   \<and> ((\<forall>s \<in> set (sections (parseMarkdown lc rw content src)). lc (raw s) = map f (raw s))
          \<and> lc query = map f query
        \<longrightarrow> search (parseMarkdown lc rw content src) query
              = filter (\<lambda>s. \<exists>pre mid post. raw s = pre @ mid @ post \<and> map f mid = map f query)
                       (sections (parseMarkdown lc rw content src)))"
proof (intro conjI impI)
  show 1: "search (parseMarkdown lc rw content src) query
     = filter (\<lambda>s. \<exists>pre post. lc (raw s) = pre @ lc query @ post)
              (sections (parseMarkdown lc rw content src))"
    by (simp only: search_parseMarkdown includes_s_iff)
  assume "\<forall>s \<in> set (sections (parseMarkdown lc rw content src)).
          \<not> (\<exists>pre post. lc (raw s) = pre @ lc query @ post)"
  with 1 show "search (parseMarkdown lc rw content src) query = []"
    by (simp add: filter_empty_conv)
next
  assume u: "(\<forall>s \<in> set (sections (parseMarkdown lc rw content src)). lc (raw s) = map f (raw s))
          \<and> lc query = map f query"
  have "filter (\<lambda>s. includes_s (lc (raw s)) (lc query)) (sections (parseMarkdown lc rw content src))
      = filter (\<lambda>s. \<exists>pre mid post. raw s = pre @ mid @ post \<and> map f mid = map f query)
               (sections (parseMarkdown lc rw content src))"
  proof (rule filter_cong [OF refl])
    fix s assume "s \<in> set (sections (parseMarkdown lc rw content src))"
    with u have "lc (raw s) = map f (raw s)" "lc query = map f query" by simp_all
    then show "includes_s (lc (raw s)) (lc query)
       = (\<exists>pre mid post. raw s = pre @ mid @ post \<and> map f mid = map f query)"
      by (simp only: includes_map_iff)
  qed
  then show "search (parseMarkdown lc rw content src) query
              = filter (\<lambda>s. \<exists>pre mid post. raw s = pre @ mid @ post \<and> map f mid = map f query)
                       (sections (parseMarkdown lc rw content src))"
    by (simp only: search_parseMarkdown)
qed

text \<open>
  The claim says: the sections whose \<open>raw\<close> text contains the query as a substring,
  case ignored. Lower-casing a text and lower-casing a part of it are not the same. A
  heading of the two capitals omicron, sigma has the \<open>raw\<close> text \<open># \<close> omicron sigma,
  which contains the query sigma as it stands. The sigma of the heading ends a word
  and becomes the final small sigma U+03C2; the sigma of the query stands alone and
  becomes U+03C3. The search returns nothing.
\<close>

theorem search_final_sigma_counterexample:
  "map raw (sections (parseMarkdown toLowerCase_basic (\<lambda>c. doc_sigma) [] None))
     = [[HASH, 0x20, 0x39F, 0x3A3]]
   \<and> [HASH, 0x20, 0x39F, 0x3A3] = [HASH, 0x20, 0x39F] @ [0x3A3] @ []
   \<and> toLowerCase_basic [HASH, 0x20, 0x39F, 0x3A3] = [HASH, 0x20, 0x3BF, 0x3C2]
   \<and> toLowerCase_basic [0x3A3] = [0x3C3]
   \<and> search (parseMarkdown toLowerCase_basic (\<lambda>c. doc_sigma) [] None) [0x3A3] = []"
  by code_simp

text \<open>
  The theorem at a document with the heading "Component" and a css block: no section
  contains "xyzzy", and the search for it returns the empty list; the search for
  "COMPONENT" returns the heading, and there lower-casing is the map \<open>lower_unit\<close> of the
  code units.
\<close>

theorem search_lowercase_substring_witness:
  "search (parseMarkdown toLowerCase_basic (\<lambda>c. doc_component) [] None) (str ''xyzzy'') = []
   \<and> map raw (search (parseMarkdown toLowerCase_basic (\<lambda>c. doc_component) [] None)
                (str ''COMPONENT''))
       = [str ''# Component'']
   \<and> search (parseMarkdown toLowerCase_basic (\<lambda>c. doc_component) [] None) (str ''COMPONENT'')
       = filter (\<lambda>s. \<exists>pre mid post. raw s = pre @ mid @ post
                        \<and> map lower_unit mid = map lower_unit (str ''COMPONENT''))
                (sections (parseMarkdown toLowerCase_basic (\<lambda>c. doc_component) [] None))"
proof -
  define d where "d = parseMarkdown toLowerCase_basic (\<lambda>c. doc_component) [] None"
  have a: "\<forall>s \<in> set (sections d).
      \<not> includes_s (toLowerCase_basic (raw s)) (toLowerCase_basic (str ''xyzzy''))"
    unfolding d_def by code_simp
  have b: "map raw (filter (\<lambda>s. includes_s (toLowerCase_basic (raw s))
                                  (toLowerCase_basic (str ''COMPONENT'')))
             (sections d)) = [str ''# Component'']"
    unfolding d_def by code_simp
  have u: "(\<forall>s \<in> set (sections d). toLowerCase_basic (raw s) = map lower_unit (raw s))
      \<and> toLowerCase_basic (str ''COMPONENT'') = map lower_unit (str ''COMPONENT'')"
    unfolding d_def by code_simp
  note th1 = search_lowercase_substring
    [of toLowerCase_basic "\<lambda>c. doc_component" "[]" None "str ''xyzzy''" lower_unit,
     folded d_def]
  note th2 = search_lowercase_substring
    [of toLowerCase_basic "\<lambda>c. doc_component" "[]" None "str ''COMPONENT''" lower_unit,
     folded d_def]
  from a have h: "\<forall>s \<in> set (sections d).
      \<not> (\<exists>pre post. toLowerCase_basic (raw s) = pre @ toLowerCase_basic (str ''xyzzy'') @ post)"
    by (simp only: includes_s_iff)
  from th1 h have r1: "search d (str ''xyzzy'') = []" by blast
  from th2 have "search d (str ''COMPONENT'')
      = filter (\<lambda>s. \<exists>pre post. toLowerCase_basic (raw s)
                                   = pre @ toLowerCase_basic (str ''COMPONENT'') @ post)
               (sections d)"
    by blast
  with b have r2: "map raw (search d (str ''COMPONENT'')) = [str ''# Component'']"
    by (simp only: includes_s_iff)
  from th2 u have r3: "search d (str ''COMPONENT'')
       = filter (\<lambda>s. \<exists>pre mid post. raw s = pre @ mid @ post
                        \<and> map lower_unit mid = map lower_unit (str ''COMPONENT''))
                (sections d)"
    by blast
  from r1 r2 r3 show ?thesis unfolding d_def by (intro conjI)
qed

section \<open>Failures of the collaborators\<close>

text \<open>
  Claim C9. When the file does not exist, \<open>parseFile\<close> fails with the error "File not
  found: " followed by the path, and returns no document. When the response of the
  fetch is not \<open>ok\<close>, \<open>fetchDocs\<close> fails with the error "Failed to fetch ", the URL, ": "
  and the status in decimal. Both are results of the entry point itself: the caller
  receives the error.
\<close>

theorem io_failures_propagate:
  "(files path = None \<longrightarrow>
      parseFile lc files rw path = Inl (Error (str ''File not found: '' @ path)))
   \<and> (fetch url = Inr res \<and> \<not> ok res \<longrightarrow>
      fetchDocs lc fetch rw url
        = Inl (Error (str ''Failed to fetch '' @ url @ str '': '' @ toString_nat (status res))))"
  by (simp add: parseFile_def fetchDocs_def)

text \<open>
  The theorem at a file system without the file \<open>nonexistent.md\<close> and at a fetch that
  answers 404.
\<close>

theorem io_failures_propagate_witness:
  "(Map.empty :: jsstring \<rightharpoonup> jsstring) (str ''nonexistent.md'') = None
   \<and> parseFile toLowerCase_basic Map.empty (\<lambda>c. []) (str ''nonexistent.md'') = Inl (Error (str ''File not found: nonexistent.md''))
   \<and> \<not> ok \<lparr> ok = False, status = 404, body = [] \<rparr>
   \<and> fetchDocs toLowerCase_basic (\<lambda>u. Inr \<lparr> ok = False, status = 404, body = [] \<rparr>) (\<lambda>c. []) (str ''http://x/a.md'')
        = Inl (Error (str ''Failed to fetch http://x/a.md: 404''))"
proof -
  have d: "toString_nat 404 = str ''404''" by code_simp
  show ?thesis
    using io_failures_propagate
            [where files = Map.empty and path = "str ''nonexistent.md''" and lc = toLowerCase_basic
               and rw = "\<lambda>c. []" and fetch = "\<lambda>u. Inr \<lparr> ok = False, status = 404, body = [] \<rparr>"
               and url = "str ''http://x/a.md''" and res = "\<lparr> ok = False, status = 404, body = [] \<rparr>"]
    by (simp add: d) (simp add: str_def)
qed

section \<open>Tables\<close>

subsection \<open>The rows of a table\<close>

lemma run_snoc: "run lc (evs @ [e]) s = step lc e (run lc evs s)"
  by (simp add: run_def)

lemma rows_seen_snoc: "rows_seen (evs @ [e]) = seen_step e (rows_seen evs)"
  by (simp add: rows_seen_def)

lemma first_row_headers_empty:
  "currentTable (run lc evs init) = Some (hs, rs) \<Longrightarrow> rows_seen evs = 0 \<Longrightarrow> hs = [] \<and> rs = []"
proof (induction evs arbitrary: hs rs rule: rev_induct)
  case Nil
  then show ?case by (simp add: run_def init_def)
next
  case (snoc e evs)
  then show ?case
    by (cases e)
       (auto simp: run_snoc rows_seen_snoc handler_defs push_def Let_def
             split: option.splits prod.splits if_splits)
qed

text \<open>
  Claim C3, as the code has it. While a table is open, at the end tag of a \<open>tr\<close>: if
  the within-head flag is set or the headers of the table are still empty, the cell
  buffer becomes the headers; otherwise it is appended to the rows. At the first row
  seen for the table the headers are empty, so the first row always becomes the
  headers.
\<close>

theorem tr_endtag_headers_or_rows:
  "currentTable (run lc evs init) = Some (hs, rs) \<Longrightarrow>
     (inThead (run lc evs init) \<or> hs = [] \<longrightarrow>
        tr_endtag (run lc evs init)
          = (run lc evs init)\<lparr> currentTable := Some (currentRow (run lc evs init), rs) \<rparr>)
     \<and> (\<not> inThead (run lc evs init) \<and> hs \<noteq> [] \<longrightarrow>
        tr_endtag (run lc evs init)
          = (run lc evs init)\<lparr> currentTable := Some (hs, rs @ [currentRow (run lc evs init)]) \<rparr>)
     \<and> (rows_seen evs = 0 \<longrightarrow> hs = [])"
  using first_row_headers_empty [of lc evs hs rs]
  by (auto simp: tr_endtag_def)

text \<open>
  The claim says "the first row seen" where the code tests for empty headers. The two
  differ when an earlier row left the headers empty: after a header row whose cells
  hold no text, the body row a, b is not the first row and the within-head flag is
  off, so by the claim it is appended to the rows; the code makes it the headers.
\<close>

theorem tr_endtag_first_row_counterexample:
  "rows_seen table_blank_head = 1
   \<and> \<not> inThead (run toLowerCase_basic table_blank_head init)
   \<and> currentRow (run toLowerCase_basic table_blank_head init) = [str ''a'', str ''b'']
   \<and> currentTable (run toLowerCase_basic table_blank_head init) = Some ([], [])
   \<and> currentTable (tr_endtag (run toLowerCase_basic table_blank_head init)) = Some ([str ''a'', str ''b''], [])
   \<and> currentTable (tr_endtag_claimed (rows_seen table_blank_head = 0) (run toLowerCase_basic table_blank_head init))
        = Some ([], [[str ''a'', str ''b'']])"
  by code_simp

text \<open>
  The theorem at a body row after the header row Prop (appended to the rows), and at
  the first row of a table without a head (it becomes the headers).
\<close>

theorem tr_endtag_headers_or_rows_witness:
  "currentTable (run toLowerCase_basic table_with_head init) = Some ([str ''Prop''], [])
   \<and> currentTable (tr_endtag (run toLowerCase_basic table_with_head init)) = Some ([str ''Prop''], [[str ''size'']])
   \<and> currentTable (run toLowerCase_basic table_first_row init) = Some ([], [])
   \<and> rows_seen table_first_row = 0
   \<and> currentTable (tr_endtag (run toLowerCase_basic table_first_row init)) = Some ([str ''H''], [])"
proof -
  have a: "currentTable (run toLowerCase_basic table_with_head init) = Some ([str ''Prop''], [])" by code_simp
  have b: "\<not> inThead (run toLowerCase_basic table_with_head init)" by code_simp
  have c: "currentRow (run toLowerCase_basic table_with_head init) = [str ''size'']" by code_simp
  have d: "currentTable (run toLowerCase_basic table_first_row init) = Some ([], [])" by code_simp
  have e: "currentRow (run toLowerCase_basic table_first_row init) = [str ''H'']" by code_simp
  have f: "rows_seen table_first_row = 0" by code_simp
  show ?thesis
    using tr_endtag_headers_or_rows [OF a] tr_endtag_headers_or_rows [OF d] a b c d e f by simp
qed

subsection \<open>The row objects\<close>

lemma fill_Nil: "fill row k [] m = m"
  by (simp add: fill_def)

lemma fill_Cons: "fill row k (h # hs) m = fill row (Suc k) hs (obj_set m h (cell_at row k))"
proof -
  have "k < k + length (h # hs)" by simp
  then have "[k..<k + length (h # hs)] = k # [Suc k..<k + length (h # hs)]"
    by (rule upt_conv_Cons)
  moreover have "k + length (h # hs) = Suc k + length hs" by simp
  ultimately have "[k..<k + length (h # hs)] = k # [Suc k..<Suc k + length hs]"
    by (simp only:)
  then show ?thesis
    unfolding fill_def by (simp only: zip_Cons_Cons fold_Cons comp_apply prod.case)
qed

lemma row_object_fill: "row_object hs row = fill row 0 hs Map.empty"
  by (simp add: row_object_def fill_def cell_at_def)

lemma fill_other: "key \<notin> set hs \<or> key = str ''__proto__'' \<Longrightarrow> fill row k hs m key = m key"
  by (induction hs arbitrary: k m) (auto simp: fill_Nil fill_Cons obj_set_def)

lemma fill_last:
  "i < length hs \<Longrightarrow> hs ! i \<noteq> str ''__proto__'' \<Longrightarrow>
   (\<forall>j. i < j \<and> j < length hs \<longrightarrow> hs ! j \<noteq> hs ! i) \<Longrightarrow>
   fill row k hs m (hs ! i) = Some (cell_at row (k + i))"
proof (induction hs arbitrary: i k m)
  case Nil
  then show ?case by simp
next
  case (Cons h hs)
  show ?case
  proof (cases i)
    case 0
    have "h \<notin> set hs"
    proof
      assume "h \<in> set hs"
      then obtain j where "j < length hs" "hs ! j = h" by (auto simp: in_set_conv_nth)
      with Cons.prems(3) 0 show False by (auto dest: spec [of _ "Suc j"])
    qed
    with 0 Cons.prems(2) show ?thesis
      by (simp add: fill_Cons fill_other obj_set_def)
  next
    case (Suc i')
    have later: "\<forall>j. i' < j \<and> j < length hs \<longrightarrow> hs ! j \<noteq> hs ! i'"
    proof (intro allI impI)
      fix j assume "i' < j \<and> j < length hs"
      with Cons.prems(3) Suc show "hs ! j \<noteq> hs ! i'" by (auto dest: spec [of _ "Suc j"])
    qed
    from Suc Cons.prems have "i' < length hs" "hs ! i' \<noteq> str ''__proto__''" by auto
    from Cons.IH [OF this later] Suc show ?thesis
      by (simp add: fill_Cons)
  qed
qed

lemma dom_fill: "dom (fill row k hs m) = dom m \<union> (set hs - {str ''__proto__''})"
  by (induction hs arbitrary: k m) (auto simp: fill_Nil fill_Cons obj_set_def)

lemma last_occurrence:
  "i < length hs \<Longrightarrow>
   \<exists>j. i \<le> j \<and> j < length hs \<and> hs ! j = hs ! i \<and> (\<forall>l. j < l \<and> l < length hs \<longrightarrow> hs ! l \<noteq> hs ! j)"
proof -
  assume i: "i < length hs"
  let ?S = "{j. j < length hs \<and> hs ! j = hs ! i}"
  have fin: "finite ?S" by simp
  have ne: "i \<in> ?S" using i by simp
  define j where "j = Max ?S"
  have jS: "j \<in> ?S" unfolding j_def using fin ne by (metis Max_in empty_iff)
  have ij: "i \<le> j" unfolding j_def using fin ne by (rule Max_ge)
  have "\<forall>l. j < l \<and> l < length hs \<longrightarrow> hs ! l \<noteq> hs ! j"
  proof (intro allI impI notI)
    fix l assume l: "j < l \<and> l < length hs" and "hs ! l = hs ! j"
    with jS have "l \<in> ?S" by simp
    then have "l \<le> j" unfolding j_def using fin by simp
    with l show False by simp
  qed
  with jS ij show ?thesis by blast
qed

lemma row_object_dom: "dom (row_object hs row) = set hs - {str ''__proto__''}"
  by (simp add: row_object_fill dom_fill)

lemma row_object_last:
  "i < length hs \<Longrightarrow> hs ! i \<noteq> str ''__proto__'' \<Longrightarrow>
   (\<forall>j. i < j \<and> j < length hs \<longrightarrow> hs ! j \<noteq> hs ! i) \<Longrightarrow>
   row_object hs row (hs ! i) = Some (if i < length row then trim (row ! i) else [])"
  using fill_last [of i hs row 0 Map.empty] by (simp add: row_object_fill cell_at_def)

lemma row_object_beyond:
  assumes "i < length hs" "hs ! i \<noteq> str ''__proto__''" "length row \<le> i"
  shows "row_object hs row (hs ! i) = Some []"
proof -
  from last_occurrence [OF assms(1)] obtain j where
    j: "i \<le> j" "j < length hs" "hs ! j = hs ! i"
       "\<forall>l. j < l \<and> l < length hs \<longrightarrow> hs ! l \<noteq> hs ! j" by blast
  from row_object_last [OF j(2) _ j(4), of row] assms j show ?thesis by simp
qed

lemma table_endtag_sections:
  "currentTable s = Some (hs, rs) \<Longrightarrow>
   st_sections (table_endtag s)
     = st_sections s @ [TableSection (st_idx s) (formatTableMd hs rs) hs (map (row_object hs) rs)]"
  by (simp add: table_endtag_def push_def)

text \<open>
  Claim C4, as the code has it. At the end tag of a table the section pushed has the
  headers of the table and one object per row. For headers without the string
  \<open>__proto__\<close>, the keys of each object are the headers. The object maps the header at
  position \<open>i\<close> to the trimmed text of cell \<open>i\<close> of the row, and to the empty string
  when the row has no cell \<open>i\<close>, provided no later position carries the same header
  string; and it maps every header at a position beyond the last cell of the row to
  the empty string. A table with no body row gives \<open>rows = []\<close>.
\<close>

theorem table_endtag_row_mappings:
  "(currentTable s = Some (hs, rs) \<longrightarrow>
      st_sections (table_endtag s)
        = st_sections s @ [TableSection (st_idx s) (formatTableMd hs rs) hs (map (row_object hs) rs)])
   \<and> (str ''__proto__'' \<notin> set hs \<longrightarrow> dom (row_object hs row) = set hs)
   \<and> (i < length hs \<and> hs ! i \<noteq> str ''__proto__'' \<and> (\<forall>j. i < j \<and> j < length hs \<longrightarrow> hs ! j \<noteq> hs ! i) \<longrightarrow>
        row_object hs row (hs ! i) = Some (if i < length row then trim (row ! i) else []))
   \<and> (i < length hs \<and> hs ! i \<noteq> str ''__proto__'' \<and> length row \<le> i \<longrightarrow>
        row_object hs row (hs ! i) = Some [])
   \<and> (currentTable s = Some (hs, []) \<longrightarrow> rows (last (st_sections (table_endtag s))) = [])"
proof (intro conjI impI)
  assume "currentTable s = Some (hs, rs)"
  then show "st_sections (table_endtag s)
        = st_sections s @ [TableSection (st_idx s) (formatTableMd hs rs) hs (map (row_object hs) rs)]"
    by (rule table_endtag_sections)
next
  assume "str ''__proto__'' \<notin> set hs"
  then show "dom (row_object hs row) = set hs" by (simp add: row_object_dom)
next
  assume "i < length hs \<and> hs ! i \<noteq> str ''__proto__'' \<and> (\<forall>j. i < j \<and> j < length hs \<longrightarrow> hs ! j \<noteq> hs ! i)"
  then show "row_object hs row (hs ! i) = Some (if i < length row then trim (row ! i) else [])"
    using row_object_last [of i hs row] by blast
next
  assume "i < length hs \<and> hs ! i \<noteq> str ''__proto__'' \<and> length row \<le> i"
  then show "row_object hs row (hs ! i) = Some []"
    using row_object_beyond [of i hs row] by blast
next
  assume "currentTable s = Some (hs, [])"
  then show "rows (last (st_sections (table_endtag s))) = []"
    by (simp add: table_endtag_sections)
qed

text \<open>
  The claim maps every \<open>header[i]\<close> to cell \<open>i\<close>. With the header A in two columns and
  a row with the cells " 1 " and "2", the object maps the header at position 0 to "2",
  the text of cell 1, and not to "1", the trimmed text of cell 0.
\<close>

theorem table_duplicate_header_counterexample:
  "map headers (st_sections (run toLowerCase_basic table_dup init)) = [[str ''A'', str ''A'']]
   \<and> map (\<lambda>sec. map (\<lambda>r. r ([str ''A'', str ''A''] ! 0)) (rows sec)) (st_sections (run toLowerCase_basic table_dup init))
        = [[Some (str ''2'')]]
   \<and> trim (str '' 1 '') = str ''1''"
  by code_simp

text \<open>
  The theorem at a table with the headers Prop, Type, Default and a row of two cells,
  and at a table with a header row only.
\<close>

theorem table_endtag_row_mappings_witness:
  "currentTable (run toLowerCase_basic table_short_row init) = Some ([str ''Prop'', str ''Type'', str ''Default''], [[str '' size'', str ''string '']])
   \<and> map headers (st_sections (table_endtag (run toLowerCase_basic table_short_row init))) = [[str ''Prop'', str ''Type'', str ''Default'']]
   \<and> dom (row_object [str ''Prop'', str ''Type'', str ''Default''] [str '' size'', str ''string ''])
        = {str ''Prop'', str ''Type'', str ''Default''}
   \<and> row_object [str ''Prop'', str ''Type'', str ''Default''] [str '' size'', str ''string ''] (str ''Type'') = Some (str ''string'')
   \<and> row_object [str ''Prop'', str ''Type'', str ''Default''] [str '' size'', str ''string ''] (str ''Default'') = Some []
   \<and> currentTable (run toLowerCase_basic table_head_open init) = Some ([str ''Header1'', str ''Header2''], [])
   \<and> rows (last (st_sections (table_endtag (run toLowerCase_basic table_head_open init)))) = []"
proof -
  define hs where "hs = [str ''Prop'', str ''Type'', str ''Default'']"
  define row where "row = [str '' size'', str ''string '']"
  define s1 where "s1 = run toLowerCase_basic table_short_row init"
  define s2 where "s2 = run toLowerCase_basic table_head_open init"
  have a: "currentTable s1 = Some (hs, [row])" unfolding s1_def hs_def row_def by code_simp
  have a0: "st_sections s1 = []" unfolding s1_def by code_simp
  have b: "currentTable s2 = Some ([str ''Header1'', str ''Header2''], [])" unfolding s2_def by code_simp
  have c: "str ''__proto__'' \<notin> set hs" unfolding hs_def by (simp add: str_def)
  have t: "trim (row ! 1) = str ''string''" unfolding row_def by code_simp
  have l: "length hs = 3" "length row = 2" "hs ! 1 = str ''Type''" "hs ! 2 = str ''Default''"
    unfolding hs_def row_def by simp_all
  have d1: "1 < length hs \<and> hs ! 1 \<noteq> str ''__proto__''
            \<and> (\<forall>j. 1 < j \<and> j < length hs \<longrightarrow> hs ! j \<noteq> hs ! 1)"
  proof (intro conjI allI impI)
    show "1 < length hs" using l by simp
    show "hs ! 1 \<noteq> str ''__proto__''" using l by (simp add: str_def)
    fix j assume "1 < j \<and> j < length hs"
    then have "j = 2" using l by simp
    then show "hs ! j \<noteq> hs ! 1" using l by (simp add: str_def)
  qed
  have d2: "2 < length hs \<and> hs ! 2 \<noteq> str ''__proto__'' \<and> length row \<le> 2"
    using l by (simp add: str_def)
  note th1 = table_endtag_row_mappings [of s1 hs "[row]" row 1]
  note th2 = table_endtag_row_mappings [of s2 "[str ''Header1'', str ''Header2'']" "[]" row 2]
  note th3 = table_endtag_row_mappings [of s1 hs "[row]" row 2]
  from th1 a a0 have r1: "map headers (st_sections (table_endtag s1)) = [hs]" by simp
  from th1 c have r2: "dom (row_object hs row) = set hs" by blast
  from th1 d1 have "row_object hs row (hs ! 1) = Some (if 1 < length row then trim (row ! 1) else [])"
    by blast
  with t l have r3: "row_object hs row (str ''Type'') = Some (str ''string'')" by simp
  from th3 d2 have "row_object hs row (hs ! 2) = Some []" by blast
  with l have r4: "row_object hs row (str ''Default'') = Some []" by simp
  from th2 b have r5: "rows (last (st_sections (table_endtag s2))) = []" by blast
  have r2': "dom (row_object hs row) = {str ''Prop'', str ''Type'', str ''Default''}"
    using r2 unfolding hs_def by simp
  from a r1 r2' r3 r4 b r5 show ?thesis
    unfolding s1_def s2_def hs_def row_def by (intro conjI)
qed

text \<open>
  Claim C10. The claim: when a header string occurs more than once, each row object has
  one key for it, with the trimmed text of the cell at the last position of that
  header. The code misses one header string. On a table whose two columns both have the
  header \<open>__proto__\<close>, the row object has no key \<open>__proto__\<close>: the assignment
  \<open>obj[h] = ...\<close> reaches the inherited accessor and stores nothing.
\<close>

theorem table_proto_header_lost:
  "map headers (st_sections (run lc table_proto init)) = [[str ''__proto__'', str ''__proto__'']]
   \<and> map (\<lambda>sec. map (\<lambda>r. r (str ''__proto__'')) (rows sec)) (st_sections (run lc table_proto init))
        = [[None]]"
  by code_simp

section \<open>The slug\<close>

lemma runs_hd: "runs P (y # ys) = r # rs \<Longrightarrow> hd r = y"
  by (auto split: list.splits if_splits)

lemma runs_Cons_not_Nil: "runs P (y # ys) \<noteq> []"
  by (auto split: list.splits)

lemma hyphenate_runs_Nil: "hyphenate_runs [] = []"
  by (simp add: hyphenate_runs_def)

lemma hyphenate_runs_keep:
  "isLowerAlnum x \<Longrightarrow> hyphenate_runs (x # xs) = x # hyphenate_runs xs"
  by (auto simp: hyphenate_runs_def split: list.splits)

lemma hyphenate_runs_run:
  "\<not> isLowerAlnum x \<Longrightarrow>
   hyphenate_runs (x # xs) = HYPHEN # hyphenate_runs (dropWhile (\<lambda>c. \<not> isLowerAlnum c) xs)"
proof (induction xs arbitrary: x)
  case Nil
  then show ?case by (simp add: hyphenate_runs_def)
next
  case (Cons y ys)
  obtain r rs where rr: "runs isLowerAlnum (y # ys) = r # rs"
    using runs_Cons_not_Nil [of isLowerAlnum y ys] by (cases "runs isLowerAlnum (y # ys)") auto
  then have hd: "hd r = y" by (rule runs_hd)
  show ?case
  proof (cases "isLowerAlnum y")
    case True
    with Cons.prems rr hd show ?thesis
      by (simp add: hyphenate_runs_def del: runs.simps) (simp add: rr hd)
  next
    case False
    from Cons.IH [OF False]
    have ih: "hyphenate_runs (y # ys) = HYPHEN # hyphenate_runs (dropWhile (\<lambda>c. \<not> isLowerAlnum c) ys)" .
    have "hyphenate_runs (x # y # ys) = hyphenate_runs (y # ys)"
      using Cons.prems False rr hd
      by (simp add: hyphenate_runs_def del: runs.simps) (simp add: rr hd)
    with ih False show ?thesis by simp
  qed
qed

lemma exec_at_non_alnum_run:
  "exec_at non_alnum_run i s =
     (if takeWhile (\<lambda>c. \<not> isLowerAlnum c) s = [] then None
      else Some (i + length (takeWhile (\<lambda>c. \<not> isLowerAlnum c) s), []))"
  by (cases "takeWhile (\<lambda>c. \<not> isLowerAlnum c) s") (simp_all add: exec_at_def non_alnum_run_def)

lemma replace_non_alnum_run:
  "replace_from non_alnum_run [HYPHEN] i s = hyphenate_runs s"
proof (induction "length s" arbitrary: s i rule: less_induct)
  case less
  show ?case
  proof (cases s)
    case Nil
    then show ?thesis by (simp add: exec_at_non_alnum_run hyphenate_runs_Nil)
  next
    case (Cons x xs)
    show ?thesis
    proof (cases "isLowerAlnum x")
      case True
      with Cons less.hyps [of xs "Suc i"] show ?thesis
        by (simp add: exec_at_non_alnum_run hyphenate_runs_keep)
    next
      case False
      let ?P = "\<lambda>c. \<not> isLowerAlnum c"
      let ?n = "length (takeWhile ?P (x # xs))"
      have n: "?n = Suc (length (takeWhile ?P xs))" using False by simp
      have dr: "drop ?n (x # xs) = dropWhile ?P xs"
        using False by (simp add: dropWhile_eq_drop)
      have len: "length (dropWhile ?P xs) < length s"
        using Cons by (simp add: length_dropWhile_le less_Suc_eq_le)
      have ex: "exec_at non_alnum_run i (x # xs) = Some (i + ?n, [])"
        using False by (simp add: exec_at_non_alnum_run)
      have "replace_from non_alnum_run [HYPHEN] i (x # xs)
              = [HYPHEN] @ replace_from non_alnum_run [HYPHEN] (i + ?n) (drop ?n (x # xs))"
        using n by (simp add: ex del: drop_Suc_Cons)
      also have "\<dots> = HYPHEN # hyphenate_runs (dropWhile ?P xs)"
        using less.hyps [OF len] by (simp only: dr) simp
      finally show ?thesis using Cons False by (simp add: hyphenate_runs_run)
    qed
  qed
qed

lemma exec_at_edge_hyphen_pos:
  "0 < i \<Longrightarrow> exec_at edge_hyphen i s = (if s = [HYPHEN] then Some (Suc i, []) else None)"
  by (auto simp: exec_at_def edge_hyphen_def split: list.splits)

lemma exec_at_edge_hyphen_0:
  "exec_at edge_hyphen 0 (x # xs) = (if x = HYPHEN then Some (1, []) else None)"
  by (auto simp: exec_at_def edge_hyphen_def split: list.splits)

lemma replace_edge_hyphen_pos:
  "0 < i \<Longrightarrow> replace_from edge_hyphen [] i s = strip_trailing HYPHEN s"
proof (induction s arbitrary: i)
  case Nil
  then show ?case by (simp add: exec_at_edge_hyphen_pos strip_trailing_def)
next
  case (Cons x xs)
  from Cons.IH [of "Suc i"] have ih: "replace_from edge_hyphen [] (Suc i) xs = strip_trailing HYPHEN xs"
    by simp
  show ?case
    using Cons.prems ih
    by (cases xs) (auto simp: exec_at_edge_hyphen_pos strip_trailing_def)
qed

lemma replace_edge_hyphen:
  "replace_g s edge_hyphen [] = strip_trailing HYPHEN (strip_leading HYPHEN s)"
proof (cases s)
  case Nil
  then show ?thesis
    by (simp add: replace_g_def exec_at_def edge_hyphen_def strip_trailing_def strip_leading_def)
next
  case (Cons x xs)
  have 1: "replace_from edge_hyphen [] (Suc 0) xs = strip_trailing HYPHEN xs"
    by (rule replace_edge_hyphen_pos) simp
  show ?thesis
  proof (cases "x = HYPHEN")
    case True
    with Cons 1 show ?thesis
      by (simp add: replace_g_def exec_at_edge_hyphen_0 strip_leading_def)
  next
    case False
    with Cons 1 show ?thesis
      by (cases xs) (auto simp: replace_g_def exec_at_edge_hyphen_0 strip_leading_def strip_trailing_def)
  qed
qed

lemma slugify_spec:
  "slugify lc t = strip_trailing HYPHEN (strip_leading HYPHEN (hyphenate_runs (lc t)))"
proof -
  have "replace_g (lc t) non_alnum_run (str ''-'') = hyphenate_runs (lc t)"
    by (simp add: replace_g_def replace_non_alnum_run str_def)
  then show ?thesis
    by (simp only: slugify_def replace_edge_hyphen)
qed

lemma hyphen_not_alnum: "\<not> isLowerAlnum HYPHEN"
  by (simp add: isLowerAlnum_def)

lemma hyphenate_runs_chars:
  "list_all (\<lambda>c. isLowerAlnum c \<or> c = HYPHEN) (hyphenate_runs s)"
proof (induction "length s" arbitrary: s rule: less_induct)
  case less
  show ?case
  proof (cases s)
    case Nil
    then show ?thesis by (simp add: hyphenate_runs_Nil)
  next
    case (Cons x xs)
    have len: "length (dropWhile (\<lambda>c. \<not> isLowerAlnum c) xs) < length s"
      using Cons by (simp add: length_dropWhile_le less_Suc_eq_le)
    show ?thesis
    proof (cases "isLowerAlnum x")
      case True
      with Cons less.hyps [of xs] show ?thesis by (simp add: hyphenate_runs_keep)
    next
      case False
      with Cons less.hyps [OF len] show ?thesis by (simp add: hyphenate_runs_run)
    qed
  qed
qed

lemma strip_chars:
  "list_all P s \<Longrightarrow> list_all P (strip_trailing c (strip_leading c s))"
proof -
  assume a: "list_all P s"
  have 1: "list_all P (strip_leading c s)"
    using a by (cases s) (auto simp: strip_leading_def)
  have "list_all P (butlast u)" if "list_all P u" for u
    using that by (simp add: list_all_iff) (meson in_set_butlastD)
  with 1 show ?thesis by (simp add: strip_trailing_def)
qed

lemma hyphenate_runs_append_keep:
  "list_all isLowerAlnum a \<Longrightarrow> hyphenate_runs (a @ s) = a @ hyphenate_runs s"
  by (induction a) (simp_all add: hyphenate_runs_keep)

lemma hyphenate_runs_word:
  "list_all isLowerAlnum b \<Longrightarrow> hyphenate_runs b = b"
  using hyphenate_runs_append_keep [of b "[]"] by (simp add: hyphenate_runs_Nil)

lemma hyphenate_runs_between:
  assumes "list_all isLowerAlnum a" "list_all isLowerAlnum b" "b \<noteq> []" "\<not> isLowerAlnum c"
  shows "hyphenate_runs (a @ [c] @ b) = a @ [HYPHEN] @ b"
proof -
  from assms(2,3) have "dropWhile (\<lambda>c. \<not> isLowerAlnum c) b = b"
    by (cases b) simp_all
  with assms(4) have "hyphenate_runs (c # b) = HYPHEN # hyphenate_runs b"
    by (simp add: hyphenate_runs_run)
  with assms(1,2) show ?thesis
    by (simp add: hyphenate_runs_append_keep hyphenate_runs_word)
qed

lemma strip_between:
  assumes "list_all isLowerAlnum a" "list_all isLowerAlnum b" "a \<noteq> []" "b \<noteq> []"
  shows "strip_trailing HYPHEN (strip_leading HYPHEN (a @ [HYPHEN] @ b)) = a @ [HYPHEN] @ b"
proof -
  from assms(1,3) have "isLowerAlnum (hd a)" by (cases a) simp_all
  then have "hd a \<noteq> HYPHEN" using hyphen_not_alnum by metis
  with assms(3) have 1: "strip_leading HYPHEN (a @ [HYPHEN] @ b) = a @ [HYPHEN] @ b"
    by (simp add: strip_leading_def)
  from assms(2,4) have "isLowerAlnum (last b)" by (simp add: list_all_iff)
  then have "last b \<noteq> HYPHEN" using hyphen_not_alnum by metis
  with assms(4) have "strip_trailing HYPHEN (a @ [HYPHEN] @ b) = a @ [HYPHEN] @ b"
    by (simp add: strip_trailing_def)
  with 1 show ?thesis by simp
qed

text \<open>
  Claim C6, as the code has it. For every text, the slug is the lower-cased text in
  which every maximal run of characters outside \<open>[a-z0-9]\<close> is replaced by one hyphen,
  without a leading and without a trailing hyphen. Where lower-casing turns
  "Hello World!" into "hello world!", the slug is "hello-world". Every character of a
  slug is in \<open>[a-z0-9]\<close> or a hyphen, so no character outside ASCII reaches it. Such a
  character is not removed before the runs are replaced: the runs are those of the
  lower-cased text, and a character of it outside \<open>[a-z0-9]\<close> that stands between two
  words of characters in \<open>[a-z0-9]\<close> leaves a hyphen between them. So the slug of
  "Meu Titulo Especial", written with U+00ED for its first i, which lower-casing
  keeps, is "meu-t-tulo-especial". The function is total: no input makes it fail.
\<close>

theorem slugify_algorithm:
  "slugify lc t = strip_trailing HYPHEN (strip_leading HYPHEN (hyphenate_runs (lc t)))
   \<and> (lc (str ''Hello World!'') = str ''hello world!''
        \<longrightarrow> slugify lc (str ''Hello World!'') = str ''hello-world'')
   \<and> list_all (\<lambda>c. isLowerAlnum c \<or> c = HYPHEN) (slugify lc t)
   \<and> (a \<noteq> [] \<and> list_all isLowerAlnum a \<and> b \<noteq> [] \<and> list_all isLowerAlnum b
        \<and> \<not> isLowerAlnum c \<and> lc t = a @ [c] @ b
        \<longrightarrow> slugify lc t = a @ [HYPHEN] @ b)
   \<and> (lc titulo = str ''meu t'' @ [0xED] @ str ''tulo especial''
        \<longrightarrow> slugify lc titulo = str ''meu-t-tulo-especial'')"
proof (intro conjI impI)
  show "slugify lc t = strip_trailing HYPHEN (strip_leading HYPHEN (hyphenate_runs (lc t)))"
    by (rule slugify_spec)
  show "list_all (\<lambda>c. isLowerAlnum c \<or> c = HYPHEN) (slugify lc t)"
    by (simp only: slugify_spec strip_chars hyphenate_runs_chars)
next
  assume "lc (str ''Hello World!'') = str ''hello world!''"
  moreover have "strip_trailing HYPHEN (strip_leading HYPHEN (hyphenate_runs (str ''hello world!'')))
      = str ''hello-world''"
    by code_simp
  ultimately show "slugify lc (str ''Hello World!'') = str ''hello-world''"
    by (simp only: slugify_spec)
next
  assume h: "a \<noteq> [] \<and> list_all isLowerAlnum a \<and> b \<noteq> [] \<and> list_all isLowerAlnum b
        \<and> \<not> isLowerAlnum c \<and> lc t = a @ [c] @ b"
  then have "hyphenate_runs (a @ [c] @ b) = a @ [HYPHEN] @ b"
    by (intro hyphenate_runs_between) simp_all
  with h have "hyphenate_runs (lc t) = a @ [HYPHEN] @ b"
    by simp
  moreover from h
  have "strip_trailing HYPHEN (strip_leading HYPHEN (a @ [HYPHEN] @ b)) = a @ [HYPHEN] @ b"
    by (intro strip_between) simp_all
  ultimately show "slugify lc t = a @ [HYPHEN] @ b"
    by (simp only: slugify_spec)
next
  assume "lc titulo = str ''meu t'' @ [0xED] @ str ''tulo especial''"
  moreover have "strip_trailing HYPHEN (strip_leading HYPHEN
        (hyphenate_runs (str ''meu t'' @ [0xED] @ str ''tulo especial'')))
      = str ''meu-t-tulo-especial''"
    by code_simp
  ultimately show "slugify lc titulo = str ''meu-t-tulo-especial''"
    by (simp only: slugify_spec)
qed

text \<open>
  The claim says the characters outside ASCII are dropped before the hyphens are made.
  Dropping them first would join "T" and "tulo"; the code puts a hyphen between them.
\<close>

theorem slugify_non_ascii_counterexample:
  "toLowerCase_basic titulo = str ''meu t'' @ [0xED] @ str ''tulo especial''
   \<and> slugify toLowerCase_basic titulo = str ''meu-t-tulo-especial''
   \<and> slug_dropping_first toLowerCase_basic titulo = str ''meu-ttulo-especial''"
  by code_simp

text \<open>
  The theorem at "Hello World!", at the word "Titulo" with U+00ED for its first i, and
  at "Meu Titulo Especial" written so, with \<open>toLowerCase_basic\<close> for the lower-casing.
\<close>

theorem slugify_algorithm_witness:
  "toLowerCase_basic (str ''Hello World!'') = str ''hello world!''
   \<and> slugify toLowerCase_basic (str ''Hello World!'') = str ''hello-world''
   \<and> toLowerCase_basic (str ''T'' @ [0xED] @ str ''tulo'') = str ''t'' @ [0xED] @ str ''tulo''
   \<and> slugify toLowerCase_basic (str ''T'' @ [0xED] @ str ''tulo'') = str ''t-tulo''
   \<and> slugify toLowerCase_basic titulo = str ''meu-t-tulo-especial''"
proof -
  have h1: "toLowerCase_basic (str ''Hello World!'') = str ''hello world!''" by code_simp
  have h2: "toLowerCase_basic (str ''T'' @ [0xED] @ str ''tulo'') = str ''t'' @ [0xED] @ str ''tulo''"
    by code_simp
  have h3: "toLowerCase_basic titulo = str ''meu t'' @ [0xED] @ str ''tulo especial''"
    by code_simp
  have w: "str ''t'' \<noteq> [] \<and> list_all isLowerAlnum (str ''t'')
      \<and> str ''tulo'' \<noteq> [] \<and> list_all isLowerAlnum (str ''tulo'') \<and> \<not> isLowerAlnum 0xED"
    by (simp add: str_def isLowerAlnum_def)
  note th = slugify_algorithm
    [where lc = toLowerCase_basic and t = "str ''T'' @ [0xED] @ str ''tulo''"
       and a = "str ''t''" and b = "str ''tulo''" and c = "0xED"]
  from th h1 have r1: "slugify toLowerCase_basic (str ''Hello World!'') = str ''hello-world''"
    by blast
  from th h2 w have "slugify toLowerCase_basic (str ''T'' @ [0xED] @ str ''tulo'')
      = str ''t'' @ [HYPHEN] @ str ''tulo''"
    by blast
  then have r2: "slugify toLowerCase_basic (str ''T'' @ [0xED] @ str ''tulo'') = str ''t-tulo''"
    by (simp add: str_def)
  from th h3 have r3: "slugify toLowerCase_basic titulo = str ''meu-t-tulo-especial''"
    by blast
  from h1 r1 h2 r2 r3 show ?thesis by (intro conjI)
qed

section \<open>The file name of a code block\<close>

subsection \<open>What a successful match looks like\<close>

lemma first_success_SomeD:
  "first_success f xs = Some y \<Longrightarrow> \<exists>x \<in> set xs. f x = Some y"
  by (induction xs) (auto split: option.splits)

lemma first_success_skip:
  "(\<forall>z \<in> set xs. f z = None) \<Longrightarrow> first_success f (xs @ ys) = first_success f ys"
  by (induction xs) auto

lemma first_success_exists:
  "x \<in> set xs \<Longrightarrow> f x = Some y \<Longrightarrow> \<exists>y'. first_success f xs = Some y'"
  by (induction xs) (auto split: option.splits)

lemma rev_upt_split:
  "a \<le> n \<Longrightarrow> n \<le> b \<Longrightarrow> rev [a..<Suc b] = rev [Suc n..<Suc b] @ n # rev [a..<n]"
proof -
  assume an: "a \<le> n" and nb: "n \<le> b"
  from nb obtain k where k: "Suc b = n + Suc k" by (auto simp: le_iff_add)
  have "[a..<n + Suc k] = [a..<n] @ [n..<n + Suc k]"
    using an by (rule upt_add_eq_append)
  moreover have "[n..<n + Suc k] = n # [Suc n..<n + Suc k]"
    by (rule upt_conv_Cons) simp
  ultimately have "[a..<Suc b] = [a..<n] @ n # [Suc n..<Suc b]"
    by (simp only: k)
  then show ?thesis by (simp only: rev_append rev.simps append_assoc append_Cons append_Nil)
qed

lemma takeWhile_take_all:
  "n \<le> length (takeWhile p s) \<Longrightarrow> list_all p (take n s)"
  by (induction s arbitrary: n) (auto simp: take_Cons' split: if_splits)

lemma inv_Chr:
  "rmatch (Chr p) (i, s, g) k = Some y \<Longrightarrow> \<exists>x xs. s = x # xs \<and> p x \<and> k (Suc i, xs, g) = Some y"
  by (auto split: list.splits if_splits)

lemma inv_Str:
  "rmatch (Str l) (i, s, g) k = Some y \<Longrightarrow> \<exists>t. s = l @ t \<and> k (i + length l, t, g) = Some y"
  by (auto simp: prefix_def split: if_splits)

lemma inv_Star:
  "rmatch (Star p) (i, s, g) k = Some y \<Longrightarrow>
   \<exists>u t. s = u @ t \<and> list_all p u \<and> k (i + length u, t, g) = Some y"
proof -
  assume "rmatch (Star p) (i, s, g) k = Some y"
  then have "first_success (\<lambda>n. k (i + n, drop n s, g))
               (rev [0..<Suc (length (takeWhile p s))]) = Some y"
    by (simp only: rmatch.simps)
  then obtain n where "n \<in> set (rev [0..<Suc (length (takeWhile p s))])"
      and n2: "k (i + n, drop n s, g) = Some y"
    by (blast dest: first_success_SomeD)
  then have n: "n \<le> length (takeWhile p s)" "k (i + n, drop n s, g) = Some y"
    by auto
  have ls: "n \<le> length s" using n(1) length_takeWhile_le [of p s] by simp
  have "s = take n s @ drop n s" by simp
  moreover have "list_all p (take n s)" using n(1) by (rule takeWhile_take_all)
  moreover have "k (i + length (take n s), drop n s, g) = Some y" using n(2) ls by simp
  ultimately show ?thesis by blast
qed

lemma inv_Plus:
  "rmatch (Plus p) (i, s, g) k = Some y \<Longrightarrow>
   \<exists>u t. s = u @ t \<and> u \<noteq> [] \<and> list_all p u \<and> k (i + length u, t, g) = Some y"
proof -
  assume "rmatch (Plus p) (i, s, g) k = Some y"
  then have "first_success (\<lambda>n. k (i + n, drop n s, g))
               (rev [1..<Suc (length (takeWhile p s))]) = Some y"
    by (simp only: rmatch.simps)
  then obtain n where "n \<in> set (rev [1..<Suc (length (takeWhile p s))])"
      and n2: "k (i + n, drop n s, g) = Some y"
    by (blast dest: first_success_SomeD)
  then have n: "1 \<le> n" "n \<le> length (takeWhile p s)" "k (i + n, drop n s, g) = Some y"
    by auto
  have ls: "n \<le> length s" using n(2) length_takeWhile_le [of p s] by simp
  have "s = take n s @ drop n s" by simp
  moreover have "list_all p (take n s)" using n(2) by (rule takeWhile_take_all)
  moreover have "k (i + length (take n s), drop n s, g) = Some y" using n(3) ls by simp
  moreover have "take n s \<noteq> []" using n(1) ls by auto
  ultimately show ?thesis by blast
qed

subsection \<open>When a greedy repetition succeeds\<close>

lemma takeWhile_stop: "\<not> P x \<Longrightarrow> length (takeWhile P (a @ x # b)) \<le> length a"
  by (induction a) auto

lemma takeWhile_all_then_stop:
  "list_all P a \<Longrightarrow> b = [] \<or> \<not> P (hd b) \<Longrightarrow> takeWhile P (a @ b) = a"
  by (induction a) (auto simp: takeWhile_eq_Nil_iff intro: list.exhaust_sel)

lemma takeWhile_all_prefix:
  "list_all P a \<Longrightarrow> length a \<le> length (takeWhile P (a @ b))"
  by (induction a) auto

lemma rmatch_Plus_backtrack:
  assumes a: "a \<noteq> []" "list_all p a"
    and ok: "k (i + length a, b, g) = Some y"
    and later: "\<forall>z. length a < z \<and> z \<le> length (takeWhile p (a @ b)) \<longrightarrow>
                   k (i + z, drop z (a @ b), g) = None"
  shows "rmatch (Plus p) (i, a @ b, g) k = Some y"
proof -
  let ?m = "length (takeWhile p (a @ b))"
  let ?F = "\<lambda>n. k (i + n, drop n (a @ b), g)"
  have le: "length a \<le> ?m" using a(2) by (rule takeWhile_all_prefix)
  have one: "1 \<le> length a" using a(1) by (cases a) auto
  have split: "rev [1..<Suc ?m] = rev [Suc (length a)..<Suc ?m] @ length a # rev [1..<length a]"
    using one le by (rule rev_upt_split)
  have none: "\<forall>z \<in> set (rev [Suc (length a)..<Suc ?m]). ?F z = None"
    using later by auto
  have "first_success ?F (rev [1..<Suc ?m]) = first_success ?F (length a # rev [1..<length a])"
    unfolding split using none by (rule first_success_skip)
  also have "\<dots> = Some y" using ok by simp
  finally show ?thesis by (simp only: rmatch.simps)
qed

lemma rmatch_Plus_greedy:
  assumes "a \<noteq> []" "list_all p a" "b = [] \<or> \<not> p (hd b)" "k (i + length a, b, g) = Some y"
  shows "rmatch (Plus p) (i, a @ b, g) k = Some y"
proof -
  have "takeWhile p (a @ b) = a" using assms(2,3) by (rule takeWhile_all_then_stop)
  then have "\<forall>z. length a < z \<and> z \<le> length (takeWhile p (a @ b)) \<longrightarrow>
                   k (i + z, drop z (a @ b), g) = None"
    by auto
  with assms(1,2,4) show ?thesis
    by (rule rmatch_Plus_backtrack [where k = k and a = a and b = b and i = i and g = g])
qed

lemma rmatch_Star_greedy:
  assumes "list_all p a" "b = [] \<or> \<not> p (hd b)" "k (i + length a, b, g) = Some y"
  shows "rmatch (Star p) (i, a @ b, g) k = Some y"
proof -
  have tw: "takeWhile p (a @ b) = a" using assms(1,2) by (rule takeWhile_all_then_stop)
  have "rev [0..<Suc (length a)] = length a # rev [0..<length a]" by simp
  then have "first_success (\<lambda>n. k (i + n, drop n (a @ b), g)) (rev [0..<Suc (length a)]) = Some y"
    using assms(3) by simp
  then show ?thesis by (simp only: rmatch.simps tw)
qed

lemma word_not_dot: "isWordChar c \<Longrightarrow> c \<noteq> DOT"
  by (auto simp: isWordChar_def)

lemma space_not_dot: "isWhiteSpace c \<Longrightarrow> c \<noteq> DOT"
  by (auto simp: isWhiteSpace_def)

lemma space_not_word: "isWhiteSpace c \<Longrightarrow> \<not> isWordChar c"
  by (auto simp: isWhiteSpace_def isWordChar_def word_le_nat_alt)

lemma LF_facts:
  "isWhiteSpace LF" "isLineTerminator LF" "\<not> isWordChar LF" "LF \<noteq> DOT"
  by (simp_all add: isWhiteSpace_def isLineTerminator_def isWordChar_def)

lemma tail_success:
  assumes "list_all isWhiteSpace w"
  shows "\<exists>j. rmatch (Cat (Star isWhiteSpace) (Chr (\<lambda>c. c = LF)))
                (i, w @ LF # rest, g) (\<lambda>(j, t, g). Some (j, g)) = Some (j, g)"
proof -
  let ?s = "w @ LF # rest"
  let ?k0 = "\<lambda>(j, t, g). Some (j, g) :: (nat \<times> captures) option"
  let ?F = "\<lambda>n. rmatch (Chr (\<lambda>c. c = LF)) (i + n, drop n ?s, g) ?k0"
  let ?cands = "rev [0..<Suc (length (takeWhile isWhiteSpace ?s))]"
  have eq: "rmatch (Cat (Star isWhiteSpace) (Chr (\<lambda>c. c = LF))) (i, ?s, g) ?k0
              = first_success ?F ?cands"
    by (simp only: rmatch.simps)
  have "length w \<le> length (takeWhile isWhiteSpace ?s)"
    using assms by (rule takeWhile_all_prefix)
  then have mem: "length w \<in> set ?cands" by auto
  have "?F (length w) = Some (Suc (i + length w), g)" by simp
  with mem obtain y' where y': "first_success ?F ?cands = Some y'"
    using first_success_exists [of "length w" ?cands ?F] by blast
  then obtain x where fx: "?F x = Some y'" by (blast dest: first_success_SomeD)
  from inv_Chr [OF fx] have "snd y' = g" by auto
  then have "y' = (fst y', g)" by (cases y') simp
  with eq y' show ?thesis by metis
qed

lemma name_ext_success:
  assumes name: "name \<noteq> []" "list_all (\<lambda>c. \<not> isLineTerminator c) name"
    and ext: "ext \<noteq> []" "list_all isWordChar ext"
    and w: "list_all isWhiteSpace w"
    and K: "K (i + length (name @ [DOT] @ ext), w @ LF # rest, (n, name @ [DOT] @ ext) # g)
              = Some y"
  shows "rmatch (Grp n name_ext) (i, name @ [DOT] @ ext @ w @ LF # rest, g) K = Some y"
proof -
  let ?u = "w @ LF # rest"
  let ?s1 = "name @ [DOT] @ ext @ ?u"
  let ?b = "[DOT] @ ext @ ?u"
  let ?K' = "\<lambda>(j, t, g'). K (j, t, (n, take (j - i) ?s1) # g')"
  let ?k2 = "\<lambda>st'. rmatch (Plus isWordChar) st' ?K'"
  let ?k1 = "\<lambda>st'. rmatch (Chr (\<lambda>c. c = DOT)) st' ?k2"
  have unf: "rmatch (Grp n name_ext) (i, ?s1, g) K
               = rmatch (Plus (\<lambda>c. \<not> isLineTerminator c)) (i, name @ ?b, g) ?k1"
    by (simp only: name_ext_def rmatch.simps)
  have hd_u: "?u = [] \<or> \<not> isWordChar (hd ?u)"
    using w by (cases w) (auto simp: space_not_word LF_facts)
  have tk: "take (Suc (i + length name) + length ext - i) ?s1 = name @ [DOT] @ ext"
    by simp
  have "?K' (Suc (i + length name) + length ext, ?u, g) = Some y"
    using K by (simp only: prod.case tk) (simp add: add.commute add.left_commute)
  then have words: "rmatch (Plus isWordChar) (Suc (i + length name), ext @ ?u, g) ?K' = Some y"
    using ext hd_u by (intro rmatch_Plus_greedy)
  then have at_name: "?k1 (i + length name, ?b, g) = Some y"
    by simp
  have later: "\<forall>z. length name < z \<and> z \<le> length (takeWhile (\<lambda>c. \<not> isLineTerminator c) (name @ ?b))
                 \<longrightarrow> ?k1 (i + z, drop z (name @ ?b), g) = None"
  proof (intro allI impI)
    fix z
    assume z: "length name < z \<and> z \<le> length (takeWhile (\<lambda>c. \<not> isLineTerminator c) (name @ ?b))"
    have "name @ ?b = (name @ [DOT] @ ext @ w) @ LF # rest" by simp
    then have "length (takeWhile (\<lambda>c. \<not> isLineTerminator c) (name @ ?b))
                 \<le> length (name @ [DOT] @ ext @ w)"
      using takeWhile_stop [of "\<lambda>c. \<not> isLineTerminator c" "LF" "name @ [DOT] @ ext @ w" rest]
      by (simp add: LF_facts)
    with z have zb: "z \<le> length name + 1 + length (ext @ w)" by simp
    define d where "d = z - length name - 1"
    have d: "z = length name + 1 + d" "d \<le> length (ext @ w)" using z zb by (auto simp: d_def)
    have dr: "drop z (name @ ?b) = drop d (ext @ w) @ LF # rest"
      using d by simp
    have "\<forall>c \<in> set (ext @ w @ [LF]). c \<noteq> DOT"
      using ext(2) w word_not_dot space_not_dot by (auto simp: list_all_iff LF_facts)
    moreover have "\<exists>c cs. drop z (name @ ?b) = c # cs \<and> c \<in> set (ext @ w @ [LF])"
    proof (cases "drop d (ext @ w)")
      case Nil
      have "drop z (name @ ?b) = LF # rest" by (subst dr, subst Nil) simp
      then show ?thesis by simp
    next
      case (Cons c cs)
      then have "c \<in> set (drop d (ext @ w))" by simp
      then have "c \<in> set (ext @ w)" by (rule in_set_dropD)
      moreover have "drop z (name @ ?b) = c # (cs @ LF # rest)"
        by (subst dr, subst Cons) simp
      ultimately show ?thesis by simp
    qed
    ultimately obtain c cs where dz: "drop z (name @ ?b) = c # cs" and c: "c \<noteq> DOT"
      by blast
    show "?k1 (i + z, drop z (name @ ?b), g) = None"
      using c by (simp only: dz) simp
  qed
  have "rmatch (Plus (\<lambda>c. \<not> isLineTerminator c)) (i, name @ ?b, g) ?k1 = Some y"
    using name at_name later
    by (rule rmatch_Plus_backtrack [where k = ?k1 and a = name and b = ?b and i = i and g = g])
  with unf show ?thesis by simp
qed

subsection \<open>The file name pattern\<close>

lemma filename_comment_alt:
  "filename_comment = Alt (comment_alt (str ''//'') 1) (comment_alt (str ''#'') 2)"
  by (simp add: filename_comment_def comment_alt_def)

lemma inv_name_ext:
  assumes "rmatch (Grp n name_ext) (i, s, g) K = Some y"
  shows "\<exists>name ext t. s = name @ [DOT] @ ext @ t \<and> name \<noteq> []
           \<and> list_all (\<lambda>c. \<not> isLineTerminator c) name \<and> ext \<noteq> [] \<and> list_all isWordChar ext
           \<and> K (i + length (name @ [DOT] @ ext), t, (n, name @ [DOT] @ ext) # g) = Some y"
proof -
  let ?K' = "\<lambda>(j, t, g'). K (j, t, (n, take (j - i) s) # g')"
  let ?k2 = "\<lambda>st'. rmatch (Plus isWordChar) st' ?K'"
  let ?k1 = "\<lambda>st'. rmatch (Chr (\<lambda>c. c = DOT)) st' ?k2"
  from assms have "rmatch (Plus (\<lambda>c. \<not> isLineTerminator c)) (i, s, g) ?k1 = Some y"
    by (simp only: name_ext_def rmatch.simps)
  from inv_Plus [OF this] obtain name t1 where
    1: "s = name @ t1" "name \<noteq> []" "list_all (\<lambda>c. \<not> isLineTerminator c) name"
    and k1: "rmatch (Chr (\<lambda>c. c = DOT)) (i + length name, t1, g) ?k2 = Some y"
    by blast
  from inv_Chr [OF k1] obtain t2 where
    2: "t1 = DOT # t2"
    and k2: "rmatch (Plus isWordChar) (Suc (i + length name), t2, g) ?K' = Some y"
    by blast
  from inv_Plus [OF k2] obtain ext t where
    3: "t2 = ext @ t" "ext \<noteq> []" "list_all isWordChar ext"
    and k3: "?K' (Suc (i + length name) + length ext, t, g) = Some y"
    by blast
  have s: "s = name @ [DOT] @ ext @ t" using 1 2 3 by simp
  have "take (Suc (i + length name) + length ext - i) s = name @ [DOT] @ ext"
    unfolding s by simp
  with k3 have "K (Suc (i + length name) + length ext, t, (n, name @ [DOT] @ ext) # g) = Some y"
    by (simp only: prod.case)
  then have "K (i + length (name @ [DOT] @ ext), t, (n, name @ [DOT] @ ext) # g) = Some y"
    by (simp add: add.commute add.left_commute)
  with s 1 3 show ?thesis by blast
qed

lemma comment_alt_inv:
  assumes "rmatch (comment_alt m n) (i, s, g) (\<lambda>(j, t, g). Some (j, g)) = Some (j, caps)"
  shows "i = 0 \<and> (\<exists>ws name ext w rest.
           s = m @ ws @ name @ [DOT] @ ext @ w @ LF # rest
           \<and> list_all isWhiteSpace ws \<and> name \<noteq> []
           \<and> list_all (\<lambda>c. \<not> isLineTerminator c) name \<and> ext \<noteq> [] \<and> list_all isWordChar ext
           \<and> list_all isWhiteSpace w \<and> caps = (n, name @ [DOT] @ ext) # g)"
proof -
  let ?k0 = "\<lambda>(j, t, g). Some (j, g) :: (nat \<times> captures) option"
  let ?k5 = "\<lambda>st'. rmatch (Chr (\<lambda>c. c = LF)) st' ?k0"
  let ?k4 = "\<lambda>st'. rmatch (Star isWhiteSpace) st' ?k5"
  let ?k3 = "\<lambda>st'. rmatch (Grp n name_ext) st' ?k4"
  let ?k2 = "\<lambda>st'. rmatch (Star isWhiteSpace) st' ?k3"
  let ?k1 = "\<lambda>st'. rmatch (Str m) st' ?k2"
  from assms have b: "rmatch Bol (i, s, g) ?k1 = Some (j, caps)"
    by (simp only: comment_alt_def rmatch.simps)
  then have i0: "i = 0" by (simp split: if_splits)
  with b have "rmatch (Str m) (i, s, g) ?k2 = Some (j, caps)" by simp
  from inv_Str [OF this] obtain t1 where
    1: "s = m @ t1" and k2: "rmatch (Star isWhiteSpace) (i + length m, t1, g) ?k3 = Some (j, caps)"
    by blast
  from inv_Star [OF k2] obtain ws t2 where
    2: "t1 = ws @ t2" "list_all isWhiteSpace ws"
    and k3: "rmatch (Grp n name_ext) (i + length m + length ws, t2, g) ?k4 = Some (j, caps)"
    by blast
  from inv_name_ext [OF k3] obtain name ext t3 where
    3: "t2 = name @ [DOT] @ ext @ t3" "name \<noteq> []" "list_all (\<lambda>c. \<not> isLineTerminator c) name"
       "ext \<noteq> []" "list_all isWordChar ext"
    and k4: "rmatch (Star isWhiteSpace)
               (i + length m + length ws + length (name @ [DOT] @ ext), t3,
                (n, name @ [DOT] @ ext) # g) ?k5 = Some (j, caps)"
    by blast
  from inv_Star [OF k4] obtain w t4 where
    4: "t3 = w @ t4" "list_all isWhiteSpace w"
    and k5: "rmatch (Chr (\<lambda>c. c = LF))
               (i + length m + length ws + length (name @ [DOT] @ ext) + length w, t4,
                (n, name @ [DOT] @ ext) # g) ?k0 = Some (j, caps)"
    by blast
  from inv_Chr [OF k5] obtain rest where
    5: "t4 = LF # rest" and c: "caps = (n, name @ [DOT] @ ext) # g"
    by auto
  have "s = m @ ws @ name @ [DOT] @ ext @ w @ LF # rest"
    using 1 2 3 4 5 by simp
  with i0 2 3 4 c show ?thesis by blast
qed

lemma comment_alt_success:
  assumes ws: "list_all isWhiteSpace ws"
    and name: "name \<noteq> []" "\<not> isWhiteSpace (hd name)" "list_all (\<lambda>c. \<not> isLineTerminator c) name"
    and ext: "ext \<noteq> []" "list_all isWordChar ext"
    and w: "list_all isWhiteSpace w"
  shows "\<exists>j. rmatch (comment_alt m n) (0, m @ ws @ name @ [DOT] @ ext @ w @ LF # rest, [])
                (\<lambda>(j, t, g). Some (j, g)) = Some (j, [(n, name @ [DOT] @ ext)])"
proof -
  let ?k0 = "\<lambda>(j, t, g). Some (j, g) :: (nat \<times> captures) option"
  let ?k4 = "\<lambda>st'. rmatch (Cat (Star isWhiteSpace) (Chr (\<lambda>c. c = LF))) st' ?k0"
  let ?k3 = "\<lambda>st'. rmatch (Cat (Grp n name_ext) (Cat (Star isWhiteSpace) (Chr (\<lambda>c. c = LF)))) st' ?k0"
  let ?s1 = "name @ [DOT] @ ext @ w @ LF # rest"
  let ?caps = "[(n, name @ [DOT] @ ext)]"
  from tail_success [OF w] obtain j where
    t: "?k4 (length m + length ws + length (name @ [DOT] @ ext), w @ LF # rest, ?caps)
          = Some (j, ?caps)"
    by blast
  have g: "rmatch (Grp n name_ext) (length m + length ws, ?s1, []) ?k4 = Some (j, ?caps)"
    using name(1,3) ext w t by (rule name_ext_success)
  then have k3: "?k3 (length m + length ws, ?s1, []) = Some (j, ?caps)"
    by (simp only: rmatch.simps)
  have hd: "?s1 = [] \<or> \<not> isWhiteSpace (hd ?s1)"
    using name(1,2) by (cases name) auto
  have st: "rmatch (Star isWhiteSpace) (length m, ws @ ?s1, []) ?k3 = Some (j, ?caps)"
    using ws hd k3 by (rule rmatch_Star_greedy)
  have "rmatch (comment_alt m n) (0, m @ ws @ ?s1, []) ?k0
          = rmatch (Star isWhiteSpace) (length m, ws @ ?s1, []) ?k3"
    by (simp add: comment_alt_def)
  with st show ?thesis by metis
qed

lemma exec_at_comment_pos: "0 < i \<Longrightarrow> exec_at filename_comment i s = None"
  by (simp add: exec_at_def filename_comment_alt comment_alt_def)

lemma exec_from_comment_pos: "0 < i \<Longrightarrow> exec_from filename_comment i s = None"
  by (induction s arbitrary: i) (simp_all add: exec_at_comment_pos)

lemma match_filename_comment:
  "match_re c filename_comment = map_option snd (exec_at filename_comment 0 c)"
  by (cases c) (auto simp: match_re_def exec_from_comment_pos split: option.splits)

lemma exec_at_filename_comment:
  "exec_at filename_comment 0 c =
     (case rmatch (comment_alt (str ''//'') 1) (0, c, []) (\<lambda>(j, t, g). Some (j, g)) of
        Some r \<Rightarrow> Some r
      | None \<Rightarrow> rmatch (comment_alt (str ''#'') 2) (0, c, []) (\<lambda>(j, t, g). Some (j, g)))"
  by (simp only: exec_at_def filename_comment_alt rmatch.simps)

lemma slashes_not_hash:
  "rmatch (comment_alt (str ''//'') 1) (0, str ''#'' @ t, []) k = None"
  by (simp add: comment_alt_def str_def)

text \<open>
  Where the detection works: code that starts with \<open>//\<close> or \<open>#\<close>, white space, a
  \<open>name.ext\<close> that does not start with white space, white space and a line feed has
  the file name \<open>name.ext\<close> (\<open>detect_filename_Some\<close>). Every code with a file name
  has that shape (\<open>detect_filename_SomeD\<close>), so code that does not start with a marker,
  or that holds no line feed, has none (\<open>detect_filename_None\<close>).
\<close>

lemma detect_filename_Some:
  assumes mk: "mk = str ''//'' \<or> mk = str ''#''"
    and ws: "list_all isWhiteSpace ws"
    and name: "name \<noteq> []" "\<not> isWhiteSpace (hd name)" "list_all (\<lambda>c. \<not> isLineTerminator c) name"
    and ext: "ext \<noteq> []" "list_all isWordChar ext"
    and w: "list_all isWhiteSpace w"
  shows "detect_filename (mk @ ws @ name @ [DOT] @ ext @ w @ LF # rest)
           = Some (name @ [DOT] @ ext)"
proof -
  let ?t = "ws @ name @ [DOT] @ ext @ w @ LF # rest"
  let ?k0 = "\<lambda>(j, t, g). Some (j, g) :: (nat \<times> captures) option"
  from mk show ?thesis
  proof
    assume m: "mk = str ''//''"
    from comment_alt_success [OF ws name ext w, of "(str ''//'')" 1 rest] obtain j where
      "rmatch (comment_alt (str ''//'') 1) (0, str ''//'' @ ?t, []) ?k0 = Some (j, [(1, name @ [DOT] @ ext)])"
      by blast
    then have "exec_at filename_comment 0 (mk @ ?t) = Some (j, [(1, name @ [DOT] @ ext)])"
      by (simp only: exec_at_filename_comment m option.case)
    then show ?thesis
      by (simp add: detect_filename_def match_filename_comment match_group_def)
  next
    assume m: "mk = str ''#''"
    from comment_alt_success [OF ws name ext w, of "(str ''#'')" 2 rest] obtain j where
      "rmatch (comment_alt (str ''#'') 2) (0, str ''#'' @ ?t, []) ?k0 = Some (j, [(2, name @ [DOT] @ ext)])"
      by blast
    then have "exec_at filename_comment 0 (mk @ ?t) = Some (j, [(2, name @ [DOT] @ ext)])"
      by (simp only: exec_at_filename_comment m slashes_not_hash option.case)
    then show ?thesis
      by (simp add: detect_filename_def match_filename_comment match_group_def)
  qed
qed

lemma detect_filename_SomeD:
  assumes "detect_filename c = Some f"
  shows "\<exists>mk ws name ext w rest. (mk = str ''//'' \<or> mk = str ''#'')
           \<and> c = mk @ ws @ name @ [DOT] @ ext @ w @ LF # rest
           \<and> list_all isWhiteSpace ws \<and> name \<noteq> []
           \<and> list_all (\<lambda>c. \<not> isLineTerminator c) name \<and> ext \<noteq> [] \<and> list_all isWordChar ext
           \<and> list_all isWhiteSpace w \<and> f = name @ [DOT] @ ext"
proof -
  let ?k0 = "\<lambda>(j, t, g). Some (j, g) :: (nat \<times> captures) option"
  from assms obtain j caps where ex: "exec_at filename_comment 0 c = Some (j, caps)"
    by (cases "exec_at filename_comment 0 c")
       (auto simp: detect_filename_def match_filename_comment match_group_def)
  with assms have f: "(case map_of caps 1 of Some x \<Rightarrow> Some x | None \<Rightarrow> map_of caps 2) = Some f"
    by (auto simp: detect_filename_def match_filename_comment match_group_def split: option.splits)
  from ex consider
      (a) "rmatch (comment_alt (str ''//'') 1) (0, c, []) ?k0 = Some (j, caps)"
    | (b) "rmatch (comment_alt (str ''#'') 2) (0, c, []) ?k0 = Some (j, caps)"
    by (auto simp only: exec_at_filename_comment split: option.splits)
  then show ?thesis
  proof cases
    case a
    from comment_alt_inv [OF a] obtain ws name ext w rest where
      s: "c = str ''//'' @ ws @ name @ [DOT] @ ext @ w @ LF # rest"
         "list_all isWhiteSpace ws" "name \<noteq> []" "list_all (\<lambda>c. \<not> isLineTerminator c) name"
         "ext \<noteq> []" "list_all isWordChar ext" "list_all isWhiteSpace w"
      and caps: "caps = [(1, name @ [DOT] @ ext)]"
      by blast
    from f caps have "f = name @ [DOT] @ ext" by simp
    with s show ?thesis by blast
  next
    case b
    from comment_alt_inv [OF b] obtain ws name ext w rest where
      s: "c = str ''#'' @ ws @ name @ [DOT] @ ext @ w @ LF # rest"
         "list_all isWhiteSpace ws" "name \<noteq> []" "list_all (\<lambda>c. \<not> isLineTerminator c) name"
         "ext \<noteq> []" "list_all isWordChar ext" "list_all isWhiteSpace w"
      and caps: "caps = [(2, name @ [DOT] @ ext)]"
      by blast
    from f caps have "f = name @ [DOT] @ ext" by simp
    with s show ?thesis by blast
  qed
qed

lemma pre_endtag_sections:
  "currentCode s = Some (l, c0) \<Longrightarrow>
   st_sections (pre_endtag s)
     = st_sections s @ [CodeSection (st_idx s)
         (str ''```'' @ l @ [LF] @ trim c0 @ [LF] @ str ''```'') l (trim c0)
         (detect_filename (trim c0))]"
  by (simp add: pre_endtag_def push_def Let_def)

lemma detect_filename_None:
  "\<not> prefix (str ''//'') c \<and> \<not> prefix (str ''#'') c \<or> LF \<notin> set c \<Longrightarrow> detect_filename c = None"
proof (cases "detect_filename c")
  case None
  then show ?thesis .
next
  case (Some f)
  assume n: "\<not> prefix (str ''//'') c \<and> \<not> prefix (str ''#'') c \<or> LF \<notin> set c"
  from detect_filename_SomeD [OF Some] obtain mk ws name ext w rest where
    s: "mk = str ''//'' \<or> mk = str ''#''"
       "c = mk @ ws @ name @ [DOT] @ ext @ w @ LF # rest"
    by blast
  from s have "prefix (str ''//'') c \<or> prefix (str ''#'') c" by auto
  moreover from s(2) have "LF \<in> set c" by simp
  ultimately show ?thesis using n by blast
qed

text \<open>
  Claim C5. The claim: the file name of a code section is set if and only if the first
  line of the trimmed code is a comment \<open>// name.ext\<close> or \<open># name.ext\<close>, and a block
  whose first line is \<open>// app.ts\<close> has the file name \<open>app.ts\<close>. The comment in the code
  says the same: "Detect filename from first line comment". The code does not do this.
  Its pattern ends each alternative with \<open>\s*\n\<close>, so it asks for a line feed after the
  name, and the code is trimmed before the match: a block that holds the line
  \<open>// app.ts\<close> and nothing else gets no file name. And \<open>\s\<close> matches line feeds, so
  after an empty comment \<open>//\<close> the name is taken from the second line: the code
  \<open>//\<close>, \<open>foo.ts\<close>, \<open>x\<close> gets the file name \<open>foo.ts\<close>.
\<close>

theorem filename_single_line_lost:
  "map code (st_sections (run lc code_only_comment init)) = [str ''// app.ts'']
   \<and> map filename (st_sections (run lc code_only_comment init)) = [None]
   \<and> map code (st_sections (run lc code_name_on_second_line init))
       = [str ''//'' @ [LF] @ str ''foo.ts'' @ [LF] @ str ''x'']
   \<and> map filename (st_sections (run lc code_name_on_second_line init)) = [Some (str ''foo.ts'')]"
  by code_simp

end
